theory Spec2Isabelle
  imports Main "HOL-Library.Word"
begin

unbundle bit_operations_syntax

section \<open>The CoreAudio stream of winecoreaudio.drv (coreaudio.c)\<close>

text \<open>
  A shallow embedding of the ring-buffer engine of \<^verbatim>\<open>dlls/winecoreaudio.drv/coreaudio.c\<close>:
  the stream structure, the two hardware callbacks, the capture resampler and the
  acquire/release entry points. C's fixed-width integers are words, so every \<open>+\<close>,
  \<open>-\<close> and \<open>*\<close> below wraps as the C operator does on \<^verbatim>\<open>UINT32\<close>; \<^verbatim>\<open>INT32\<close>
  values are words read with \<open>sint\<close>. A buffer is the list of its bytes, a pointer into
  it a byte offset.
\<close>

subsection \<open>Data\<close>

type_synonym BYTE = "8 word"
type_synonym WORD = "16 word"
type_synonym UINT32 = "32 word"
type_synonym INT32 = "32 word"
type_synonym UINT64 = "64 word"
type_synonym INT64 = "64 word"

text \<open>
  The two format tags and the one sub-format GUID that \<^verbatim>\<open>silence_buffer\<close> compares
  against; the code only tests them for equality, so every other value is one
  further constructor.
\<close>

datatype format_tag = WAVE_FORMAT_PCM | WAVE_FORMAT_EXTENSIBLE | WAVE_FORMAT_other WORD

datatype sub_format = KSDATAFORMAT_SUBTYPE_PCM | KSDATAFORMAT_SUBTYPE_other

record WAVEFORMATEX =
  wFormatTag :: format_tag
  nChannels :: WORD
  nSamplesPerSec :: UINT32
  nBlockAlign :: WORD
  wBitsPerSample :: WORD
  SubFormat :: sub_format

datatype EDataFlow = eRender | eCapture

datatype OSStatus = noErr | osErr int

datatype HRESULT =
    S_OK
  | S_FALSE
  | AUDCLNT_S_BUFFER_EMPTY
  | AUDCLNT_E_NOT_STOPPED
  | AUDCLNT_E_BUFFER_OPERATION_PENDING
  | AUDCLNT_E_OUT_OF_ORDER
  | AUDCLNT_E_BUFFER_TOO_LARGE
  | AUDCLNT_E_INVALID_SIZE
  | E_OUTOFMEMORY

text \<open>
  \<^verbatim>\<open>struct coreaudio_stream\<close> (lines 75-96), without the lock, the handles of the audio
  unit and the converter, the device id, the share mode, \<^verbatim>\<open>period_ms\<close> and the two byte
  sizes kept for the virtual-memory calls: none of the functions below reads them.
  \<open>dev_desc_mSampleRate\<close> is \<^verbatim>\<open>dev_desc.mSampleRate\<close> as \<^verbatim>\<open>muldiv\<close> receives it, that is
  converted to \<^verbatim>\<open>int\<close>. \<open>tmp_buffer\<close> is \<open>None\<close> while the pointer is \<^verbatim>\<open>NULL\<close>.
\<close>

record coreaudio_stream =
  flow :: EDataFlow
  playing :: bool
  period_frames :: UINT32
  bufsize_frames :: UINT32
  resamp_bufsize_frames :: UINT32
  lcl_offs_frames :: UINT32
  held_frames :: UINT32
  wri_offs_frames :: UINT32
  tmp_buffer_frames :: UINT32
  cap_bufsize_frames :: UINT32
  cap_offs_frames :: UINT32
  cap_held_frames :: UINT32
  wrap_bufsize_frames :: UINT32
  written_frames :: UINT64
  getbuf_last :: INT32
  fmt :: WAVEFORMATEX
  dev_desc_mSampleRate :: INT32
  local_buffer :: "BYTE list"
  cap_buffer :: "BYTE list"
  wrap_buffer :: "BYTE list"
  resamp_buffer :: "BYTE list"
  tmp_buffer :: "BYTE list option"

text \<open>A pointer handed to the client: into the ring at a byte offset, or the scratch buffer.\<close>

datatype buffer_ptr = LocalBuffer UINT32 | TmpBuffer

subsection \<open>Memory\<close>

text \<open>
  \<^verbatim>\<open>memcpy(dst + doff, src + soff, n)\<close> and \<^verbatim>\<open>memset(dst + doff, c, n)\<close> on byte lists.
  Within bounds (\<open>doff + n \<le> length dst\<close>, \<open>soff + n \<le> length src\<close>) the result has the
  length of \<open>dst\<close>; outside them C gives no meaning to the call, and the theorems on
  buffer contents below carry the bounds as hypotheses. Fresh memory is zero-filled:
  \<^verbatim>\<open>NtAllocateVirtualMemory\<close> commits zero pages, and nothing below reads what
  \<^verbatim>\<open>malloc\<close> returns before writing it.
\<close>

definition memcpy :: "BYTE list \<Rightarrow> nat \<Rightarrow> BYTE list \<Rightarrow> nat \<Rightarrow> nat \<Rightarrow> BYTE list" where
  "memcpy dst doff src soff n = take doff dst @ take n (drop soff src) @ drop (doff + n) dst"

definition memset :: "BYTE list \<Rightarrow> nat \<Rightarrow> BYTE \<Rightarrow> nat \<Rightarrow> BYTE list" where
  "memset dst doff c n = take doff dst @ replicate n c @ drop (doff + n) dst"

definition malloc :: "nat \<Rightarrow> BYTE list" where
  "malloc n = replicate n 0"

subsection \<open>muldiv (lines 112-133)\<close>

text \<open>C's \<^verbatim>\<open>/\<close> on signed integers truncates towards zero.\<close>

definition c_div :: "int \<Rightarrow> int \<Rightarrow> int" where
  "c_div a b = sgn a * sgn b * (\<bar>a\<bar> div \<bar>b\<bar>)"

definition muldiv :: "INT32 \<Rightarrow> INT32 \<Rightarrow> INT32 \<Rightarrow> INT32" where
  "muldiv a0 b c0 =
     (if c0 = 0 then - 1
      else
        let a = (if sint c0 < 0 then - a0 else a0);
            c = (if sint c0 < 0 then - c0 else c0);
            ret = (if (sint a < 0 \<and> sint b < 0) \<or> (0 \<le> sint a \<and> 0 \<le> sint b)
                   then c_div (sint a * sint b + c_div (sint c) 2) (sint c)
                   else c_div (sint a * sint b - c_div (sint c) 2) (sint c))
        in if ret > 2147483647 \<or> ret < - 2147483647 then - 1 else word_of_int ret)"

subsection \<open>silence_buffer and the render callback (lines 312-359)\<close>

definition block_align :: "coreaudio_stream \<Rightarrow> UINT32" where
  "block_align s = ucast (nBlockAlign (fmt s))"

definition silence_byte :: "WAVEFORMATEX \<Rightarrow> BYTE" where
  "silence_byte f =
     (if (wFormatTag f = WAVE_FORMAT_PCM \<or>
          (wFormatTag f = WAVE_FORMAT_EXTENSIBLE \<and> SubFormat f = KSDATAFORMAT_SUBTYPE_PCM)) \<and>
         wBitsPerSample f = 8
      then 128 else 0)"

definition silence_buffer :: "coreaudio_stream \<Rightarrow> BYTE list \<Rightarrow> nat \<Rightarrow> UINT32 \<Rightarrow> BYTE list" where
  "silence_buffer s buffer offs frames =
     memset buffer offs (silence_byte (fmt s)) (unat (frames * block_align s))"

text \<open>
  \<^verbatim>\<open>ca_render_cb\<close>: \<open>mData\<close> is the destination \<^verbatim>\<open>data->mBuffers[0].mData\<close>; the result is
  the destination as the callback leaves it, and the stream.
\<close>

definition ca_render_cb :: "UINT32 \<Rightarrow> BYTE list \<Rightarrow> coreaudio_stream \<Rightarrow> BYTE list \<times> coreaudio_stream" where
  "ca_render_cb nframes mData s =
     (let (to_copy_bytes, to_copy_frames, mData1, s1) =
            (if playing s then
               let lcl_offs_bytes = lcl_offs_frames s * block_align s;
                   to_copy_frames = min nframes (held_frames s);
                   to_copy_bytes = to_copy_frames * block_align s;
                   chunk_bytes = (bufsize_frames s - lcl_offs_frames s) * block_align s;
                   mData1 =
                     (if to_copy_bytes > chunk_bytes then
                        memcpy (memcpy mData 0 (local_buffer s) (unat lcl_offs_bytes) (unat chunk_bytes))
                          (unat chunk_bytes) (local_buffer s) 0 (unat (to_copy_bytes - chunk_bytes))
                      else memcpy mData 0 (local_buffer s) (unat lcl_offs_bytes) (unat to_copy_bytes))
               in (to_copy_bytes, to_copy_frames, mData1,
                   s\<lparr>lcl_offs_frames := (lcl_offs_frames s + to_copy_frames) mod bufsize_frames s,
                     held_frames := held_frames s - to_copy_frames\<rparr>)
             else (0, 0, mData, s))
      in (if nframes > to_copy_frames
          then silence_buffer s1 mData1 (unat to_copy_bytes) (nframes - to_copy_frames)
          else mData1,
          s1))"

subsection \<open>ca_wrap_buffer and the capture callback (lines 361-432)\<close>

definition ca_wrap_buffer :: "BYTE list \<Rightarrow> UINT32 \<Rightarrow> UINT32 \<Rightarrow> BYTE list \<Rightarrow> UINT32 \<Rightarrow> BYTE list" where
  "ca_wrap_buffer dst dst_offs dst_bytes src src_bytes =
     (let chunk_bytes = dst_bytes - dst_offs in
      if chunk_bytes < src_bytes then
        memcpy (memcpy dst (unat dst_offs) src 0 (unat chunk_bytes))
          0 src (unat chunk_bytes) (unat (src_bytes - chunk_bytes))
      else memcpy dst (unat dst_offs) src 0 (unat src_bytes))"

text \<open>
  \<^verbatim>\<open>AudioUnitRender\<close> belongs to the host: what it returns, the byte size it leaves in
  the buffer list and the bytes it delivers are inputs of the callback.
\<close>

record au_render =
  au_status :: OSStatus
  au_byte_size :: UINT32
  au_data :: "BYTE list"

definition ca_capture_cb :: "au_render \<Rightarrow> UINT32 \<Rightarrow> coreaudio_stream \<Rightarrow> OSStatus \<times> coreaudio_stream" where
  "ca_capture_cb au nframes s =
     (let cap_wri_offs_frames = (cap_offs_frames s + cap_held_frames s) mod cap_bufsize_frames s;
          mDataByteSize = nframes * block_align s;
          to_wrap = (\<not> playing s \<or> cap_wri_offs_frames + nframes > cap_bufsize_frames s);
          s1 = (if to_wrap \<and> wrap_bufsize_frames s < nframes
                then s\<lparr>wrap_buffer := malloc (unat mDataByteSize), wrap_bufsize_frames := nframes\<rparr>
                else s);
          s2 = (if to_wrap
                then s1\<lparr>wrap_buffer := memcpy (wrap_buffer s1) 0 (au_data au) 0 (length (au_data au))\<rparr>
                else s1\<lparr>cap_buffer := memcpy (cap_buffer s1) (unat (cap_wri_offs_frames * block_align s))
                                          (au_data au) 0 (length (au_data au))\<rparr>)
      in if au_status au \<noteq> noErr then (au_status au, s2)
         else if playing s then
           let s3 = (if to_wrap
                     then s2\<lparr>cap_buffer := ca_wrap_buffer (cap_buffer s2)
                                 (cap_wri_offs_frames * block_align s)
                                 (cap_bufsize_frames s * block_align s)
                                 (wrap_buffer s2) (au_byte_size au)\<rparr>
                     else s2);
               held = cap_held_frames s + au_byte_size au div block_align s
           in (noErr,
               if held > cap_bufsize_frames s
               then s3\<lparr>cap_offs_frames :=
                          (cap_offs_frames s + held mod cap_bufsize_frames s) mod cap_bufsize_frames s,
                        cap_held_frames := cap_bufsize_frames s\<rparr>
               else s3\<lparr>cap_held_frames := held\<rparr>)
         else (noErr, s2))"

subsection \<open>The capture resampler (lines 1042-1140)\<close>

definition buf_ptr_diff :: "UINT32 \<Rightarrow> UINT32 \<Rightarrow> UINT32 \<Rightarrow> UINT32" where
  "buf_ptr_diff left right bufsize =
     (if left \<le> right then right - left else bufsize - (left - right))"

text \<open>
  \<^verbatim>\<open>feed_cb\<close>: the converter asks for \<open>nframes\<close> frames; the callback serves what the raw
  ring holds, through \<open>wrap_buffer\<close> when the span wraps, and returns the count served.
\<close>

definition feed_cb :: "UINT32 \<Rightarrow> coreaudio_stream \<Rightarrow> UINT32 \<times> coreaudio_stream" where
  "feed_cb nframes0 s =
     (let nframes = min nframes0 (cap_held_frames s) in
      if nframes = 0 then (0, s)
      else
        let mDataByteSize = nframes * block_align s;
            s2 = (if cap_offs_frames s + nframes > cap_bufsize_frames s then
                    let chunk_frames = cap_bufsize_frames s - cap_offs_frames s;
                        s1 = (if wrap_bufsize_frames s < nframes
                              then s\<lparr>wrap_buffer := malloc (unat mDataByteSize),
                                     wrap_bufsize_frames := nframes\<rparr>
                              else s)
                    in s1\<lparr>wrap_buffer :=
                            memcpy
                              (memcpy (wrap_buffer s1) 0 (cap_buffer s)
                                 (unat (cap_offs_frames s * block_align s))
                                 (unat (chunk_frames * block_align s)))
                              (unat (chunk_frames * block_align s)) (cap_buffer s) 0
                              (unat ((nframes - chunk_frames) * block_align s))\<rparr>
                  else s)
        in (nframes,
            s2\<lparr>cap_offs_frames := (cap_offs_frames s + nframes) mod cap_bufsize_frames s,
               cap_held_frames := cap_held_frames s - nframes\<rparr>))"

text \<open>
  \<^verbatim>\<open>AudioConverterFillComplexBuffer\<close> belongs to the host. One call of it is described
  by what it does to the stream and to its arguments: the frame counts it asks
  \<^verbatim>\<open>feed_cb\<close> for, in order, the status it returns, the frame count it leaves in
  \<^verbatim>\<open>wanted_frames\<close> and the bytes it writes to the output buffer. A converter maps the
  frame count it is asked for to such a call.
\<close>

record converter_call =
  conv_pulls :: "UINT32 list"
  conv_status :: OSStatus
  conv_out_frames :: UINT32
  conv_out_data :: "BYTE list"

fun feed_all :: "UINT32 list \<Rightarrow> coreaudio_stream \<Rightarrow> coreaudio_stream" where
  "feed_all [] s = s"
| "feed_all (n # ns) s = feed_all ns (snd (feed_cb n s))"

type_synonym converter = "UINT32 \<Rightarrow> converter_call"

definition AudioConverterFillComplexBuffer ::
  "converter \<Rightarrow> UINT32 \<Rightarrow> coreaudio_stream \<Rightarrow> OSStatus \<times> UINT32 \<times> coreaudio_stream" where
  "AudioConverterFillComplexBuffer c wanted_frames s =
     (let s1 = feed_all (conv_pulls (c wanted_frames)) s
      in (conv_status (c wanted_frames), conv_out_frames (c wanted_frames),
          s1\<lparr>resamp_buffer :=
                memcpy (resamp_buffer s1) 0 (conv_out_data (c wanted_frames)) 0
                  (length (conv_out_data (c wanted_frames)))\<rparr>))"

text \<open>
  One turn of the \<^verbatim>\<open>while\<close> loop of \<^verbatim>\<open>capture_resample\<close>: the status of the converter
  (anything but \<open>noErr\<close> is the \<^verbatim>\<open>break\<close>) and the stream after the turn.
\<close>

definition capture_resample_step :: "converter \<Rightarrow> coreaudio_stream \<Rightarrow> OSStatus \<times> coreaudio_stream" where
  "capture_resample_step c s =
     (let wanted_frames0 = period_frames s;
          s1 = (if resamp_bufsize_frames s < wanted_frames0
                then s\<lparr>resamp_buffer := malloc (unat (wanted_frames0 * block_align s)),
                       resamp_bufsize_frames := wanted_frames0\<rparr>
                else s);
          (sc, wanted_frames, s2) = AudioConverterFillComplexBuffer c wanted_frames0 s1
      in if sc \<noteq> noErr then (sc, s2)
         else
           let s3 = s2\<lparr>local_buffer :=
                          ca_wrap_buffer (local_buffer s2)
                            (wri_offs_frames s2 * block_align s2)
                            (bufsize_frames s2 * block_align s2)
                            (resamp_buffer s2) (wanted_frames * block_align s2)\<rparr>;
               wri = (wri_offs_frames s3 + wanted_frames) mod bufsize_frames s3
           in (noErr,
               if held_frames s3 + wanted_frames > bufsize_frames s3
               then s3\<lparr>wri_offs_frames := wri,
                        lcl_offs_frames :=
                          lcl_offs_frames s3 + buf_ptr_diff (lcl_offs_frames s3) wri (bufsize_frames s3),
                        held_frames := bufsize_frames s3\<rparr>
               else s3\<lparr>wri_offs_frames := wri, held_frames := held_frames s3 + wanted_frames\<rparr>))"

text \<open>
  The loop. \<open>conv i\<close> is how the converter behaves at its \<open>i\<close>-th call of this drain.
  The result is \<open>None\<close> when the loop never ends.
\<close>

partial_function (option) capture_resample_loop ::
  "(nat \<Rightarrow> converter) \<Rightarrow> nat \<Rightarrow> UINT32 \<Rightarrow> coreaudio_stream \<Rightarrow> coreaudio_stream option" where
  "capture_resample_loop conv i resamp_period_frames s =
     (if cap_held_frames s > resamp_period_frames * 2 then
        (if fst (capture_resample_step (conv i) s) \<noteq> noErr
         then Some (snd (capture_resample_step (conv i) s))
         else capture_resample_loop conv (Suc i) resamp_period_frames
                (snd (capture_resample_step (conv i) s)))
      else Some s)"

declare capture_resample_loop.simps [code]

definition capture_resample :: "(nat \<Rightarrow> converter) \<Rightarrow> coreaudio_stream \<Rightarrow> coreaudio_stream option" where
  "capture_resample conv s =
     capture_resample_loop conv 0
       (muldiv (period_frames s) (dev_desc_mSampleRate s) (nSamplesPerSec (fmt s))) s"

subsection \<open>The padding query and the lifecycle (lines 1246-1328)\<close>

text \<open>
  From here on a result is an \<open>option\<close>: \<open>None\<close> is a call that does not return,
  because the drain it runs never ends, because it writes through a \<^verbatim>\<open>NULL\<close> scratch
  pointer or past the end of a buffer, or because a division traps.
\<close>

definition get_current_padding_nolock ::
  "(nat \<Rightarrow> converter) \<Rightarrow> coreaudio_stream \<Rightarrow> (UINT32 \<times> coreaudio_stream) option" where
  "get_current_padding_nolock conv s =
     (if flow s = eCapture
      then (case capture_resample conv s of
              None \<Rightarrow> None
            | Some s' \<Rightarrow> Some (held_frames s', s'))
      else Some (held_frames s, s))"

definition start :: "coreaudio_stream \<Rightarrow> HRESULT \<times> coreaudio_stream" where
  "start s = (if playing s then (AUDCLNT_E_NOT_STOPPED, s) else (S_OK, s\<lparr>playing := True\<rparr>))"

definition stop :: "coreaudio_stream \<Rightarrow> HRESULT \<times> coreaudio_stream" where
  "stop s = (if \<not> playing s then (S_FALSE, s) else (S_OK, s\<lparr>playing := False\<rparr>))"

definition reset :: "coreaudio_stream \<Rightarrow> HRESULT \<times> coreaudio_stream" where
  "reset s =
     (if playing s then (AUDCLNT_E_NOT_STOPPED, s)
      else if getbuf_last s \<noteq> 0 then (AUDCLNT_E_BUFFER_OPERATION_PENDING, s)
      else (S_OK,
            s\<lparr>written_frames :=
                 (if flow s = eRender then 0 else written_frames s + ucast (held_frames s)),
               held_frames := 0,
               lcl_offs_frames := 0,
               wri_offs_frames := 0,
               cap_offs_frames := 0,
               cap_held_frames := 0\<rparr>))"

subsection \<open>The render buffer (lines 1330-1424)\<close>

text \<open>
  \<^verbatim>\<open>get_render_buffer\<close>: \<open>alloc_ok\<close> says whether \<^verbatim>\<open>NtAllocateVirtualMemory\<close> succeeds,
  should the call reach it. The result is \<^verbatim>\<open>params->result\<close>, \<^verbatim>\<open>*params->data\<close> where the
  call stores it, and the stream. The frame count is the client's and nothing but the
  two 32-bit comparisons bounds it, so the last step, \<^verbatim>\<open>silence_buffer\<close> on the region
  handed out, can be asked to write past the end of the buffer it is given: that call
  runs over memory the stream does not own and does not return, and the result is
  \<open>None\<close>.
\<close>

definition get_render_buffer ::
  "(nat \<Rightarrow> converter) \<Rightarrow> bool \<Rightarrow> UINT32 \<Rightarrow> coreaudio_stream \<Rightarrow>
     (HRESULT \<times> buffer_ptr option \<times> coreaudio_stream) option" where
  "get_render_buffer conv alloc_ok frames s0 =
     (case get_current_padding_nolock conv s0 of
        None \<Rightarrow> None
      | Some (pad, s) \<Rightarrow>
          if getbuf_last s \<noteq> 0 then Some (AUDCLNT_E_OUT_OF_ORDER, None, s)
          else if frames = 0 then Some (S_OK, None, s)
          else if pad + frames > bufsize_frames s then Some (AUDCLNT_E_BUFFER_TOO_LARGE, None, s)
          else if wri_offs_frames s + frames > bufsize_frames s then
            (if tmp_buffer_frames s < frames \<and> \<not> alloc_ok
             then Some (E_OUTOFMEMORY, None, s\<lparr>tmp_buffer := None, tmp_buffer_frames := 0\<rparr>)
             else
               let s1 = (if tmp_buffer_frames s < frames
                         then s\<lparr>tmp_buffer := Some (malloc (unat (frames * block_align s))),
                                tmp_buffer_frames := frames\<rparr>
                         else s)
               in (case tmp_buffer s1 of
                     None \<Rightarrow> None
                   | Some tmp \<Rightarrow>
                       if length tmp < unat (frames * block_align s1) then None
                       else
                         Some (S_OK, Some TmpBuffer,
                               s1\<lparr>getbuf_last := - frames,
                                  tmp_buffer := Some (silence_buffer s1 tmp 0 frames)\<rparr>)))
          else if length (local_buffer s) <
                    unat (wri_offs_frames s * block_align s) + unat (frames * block_align s)
          then None
          else
            Some (S_OK, Some (LocalBuffer (wri_offs_frames s * block_align s)),
                  s\<lparr>getbuf_last := frames,
                    local_buffer :=
                      silence_buffer s (local_buffer s)
                        (unat (wri_offs_frames s * block_align s)) frames\<rparr>))"

definition AUDCLNT_BUFFERFLAGS_SILENT :: UINT32 where
  "AUDCLNT_BUFFERFLAGS_SILENT = 2"

definition release_render_buffer ::
  "UINT32 \<Rightarrow> UINT32 \<Rightarrow> coreaudio_stream \<Rightarrow> (HRESULT \<times> coreaudio_stream) option" where
  "release_render_buffer frames flags s =
     (if frames = 0 then Some (S_OK, s\<lparr>getbuf_last := 0\<rparr>)
      else if getbuf_last s = 0 then Some (AUDCLNT_E_OUT_OF_ORDER, s)
      else if frames > (if 0 \<le> sint (getbuf_last s) then getbuf_last s else - getbuf_last s)
      then Some (AUDCLNT_E_INVALID_SIZE, s)
      else
        (case (if 0 \<le> sint (getbuf_last s)
               then Some (if flags AND AUDCLNT_BUFFERFLAGS_SILENT \<noteq> 0
                          then s\<lparr>local_buffer :=
                                   silence_buffer s (local_buffer s)
                                     (unat (wri_offs_frames s * block_align s)) frames\<rparr>
                          else s)
               else (case tmp_buffer s of
                       None \<Rightarrow> None
                     | Some tmp \<Rightarrow>
                         let buffer = (if flags AND AUDCLNT_BUFFERFLAGS_SILENT \<noteq> 0
                                       then silence_buffer s tmp 0 frames else tmp)
                         in Some (s\<lparr>tmp_buffer := Some buffer,
                                    local_buffer :=
                                      ca_wrap_buffer (local_buffer s)
                                        (wri_offs_frames s * block_align s)
                                        (bufsize_frames s * block_align s)
                                        buffer (frames * block_align s)\<rparr>))) of
           None \<Rightarrow> None
         | Some s1 \<Rightarrow>
             Some (S_OK,
                   s1\<lparr>wri_offs_frames := (wri_offs_frames s + frames) mod bufsize_frames s,
                      held_frames := held_frames s + frames,
                      written_frames := written_frames s + ucast frames,
                      getbuf_last := 0\<rparr>)))"

subsection \<open>The capture buffer (lines 1426-1507)\<close>

text \<open>
  What \<^verbatim>\<open>get_capture_buffer\<close> stores through its parameters; \<open>None\<close> is a field the
  call leaves untouched.
\<close>

record capture_buffer =
  cb_result :: HRESULT
  cb_frames :: "UINT32 option"
  cb_data :: "buffer_ptr option"
  cb_flags :: "UINT32 option"
  cb_devpos :: "UINT64 option"
  cb_qpcpos :: "UINT64 option"

text \<open>
  \<open>want_devpos\<close> and \<open>want_qpcpos\<close> say whether the caller passed the two optional
  pointers, \<open>alloc_ok\<close> whether \<^verbatim>\<open>NtAllocateVirtualMemory\<close> succeeds, and \<open>stamp\<close> and
  \<open>freq\<close> are what \<^verbatim>\<open>NtQueryPerformanceCounter\<close> returns. The time stamp
  \<^verbatim>\<open>(stamp.QuadPart * (INT64)10000000) / freq.QuadPart\<close> (line 1472) is computed in
  \<^verbatim>\<open>INT64\<close>: the product wraps at 64 bits and is read as a signed number, the quotient
  truncates towards zero and is stored into the \<^verbatim>\<open>UINT64\<close> of the caller. The division
  traps on a zero frequency, and on the least \<^verbatim>\<open>INT64\<close> divided by \<open>- 1\<close>.
\<close>

definition get_capture_buffer ::
  "(nat \<Rightarrow> converter) \<Rightarrow> bool \<Rightarrow> bool \<Rightarrow> bool \<Rightarrow> INT64 \<Rightarrow> INT64 \<Rightarrow> coreaudio_stream \<Rightarrow>
     (capture_buffer \<times> coreaudio_stream) option" where
  "get_capture_buffer conv alloc_ok want_devpos want_qpcpos stamp freq s0 =
     (if getbuf_last s0 \<noteq> 0
      then Some (\<lparr>cb_result = AUDCLNT_E_OUT_OF_ORDER, cb_frames = None, cb_data = None,
                  cb_flags = None, cb_devpos = None, cb_qpcpos = None\<rparr>, s0)
      else
        (case capture_resample conv s0 of
           None \<Rightarrow> None
         | Some s \<Rightarrow>
             if held_frames s < period_frames s
             then Some (\<lparr>cb_result = AUDCLNT_S_BUFFER_EMPTY, cb_frames = Some 0, cb_data = None,
                         cb_flags = None, cb_devpos = None, cb_qpcpos = None\<rparr>, s)
             else
               let chunk_frames = bufsize_frames s - lcl_offs_frames s in
               (case (if chunk_frames < period_frames s then
                        let chunk_bytes = chunk_frames * block_align s;
                            s1 = (if tmp_buffer s = None \<and> alloc_ok
                                  then s\<lparr>tmp_buffer :=
                                           Some (malloc (unat (period_frames s * block_align s)))\<rparr>
                                  else s)
                        in (case tmp_buffer s1 of
                              None \<Rightarrow> None
                            | Some tmp \<Rightarrow>
                                Some (TmpBuffer,
                                      s1\<lparr>tmp_buffer :=
                                            Some (memcpy
                                                    (memcpy tmp 0 (local_buffer s)
                                                       (unat (lcl_offs_frames s * block_align s))
                                                       (unat chunk_bytes))
                                                    (unat chunk_bytes) (local_buffer s) 0
                                                    (unat (period_frames s * block_align s - chunk_bytes)))\<rparr>))
                      else Some (LocalBuffer (lcl_offs_frames s * block_align s), s)) of
                  None \<Rightarrow> None
                | Some (ptr, s2) \<Rightarrow>
                    if want_qpcpos \<and>
                       (freq = 0 \<or> (sint (stamp * 10000000) = - (2 ^ 63) \<and> freq = - 1))
                    then None
                    else
                      Some (\<lparr>cb_result = S_OK,
                              cb_frames = Some (period_frames s),
                              cb_data = Some ptr,
                              cb_flags = Some 0,
                              cb_devpos = (if want_devpos then Some (written_frames s) else None),
                              cb_qpcpos =
                                (if want_qpcpos
                                 then Some (word_of_int
                                              (c_div (sint (stamp * 10000000)) (sint freq)))
                                 else None)\<rparr>,
                            s2\<lparr>getbuf_last := period_frames s\<rparr>))))"

definition release_capture_buffer :: "UINT32 \<Rightarrow> coreaudio_stream \<Rightarrow> HRESULT \<times> coreaudio_stream" where
  "release_capture_buffer done_frames s =
     (if done_frames = 0 then (S_OK, s\<lparr>getbuf_last := 0\<rparr>)
      else if getbuf_last s = 0 then (AUDCLNT_E_OUT_OF_ORDER, s)
      else if getbuf_last s \<noteq> done_frames then (AUDCLNT_E_INVALID_SIZE, s)
      else (S_OK,
            s\<lparr>written_frames := written_frames s + ucast done_frames,
              held_frames := held_frames s - done_frames,
              lcl_offs_frames := (lcl_offs_frames s + done_frames) mod bufsize_frames s,
              getbuf_last := 0\<rparr>))"

subsection \<open>The ring invariants\<close>

text \<open>
  The invariants of the data model. The client ring: the held count is at most the
  capacity, both offsets are below it, and the write offset is the read offset plus
  the held count, modulo the capacity. The raw capture ring has no stored write
  offset (\<^verbatim>\<open>ca_capture_cb\<close> computes it), so its invariant is the two bounds.
\<close>

definition ring_inv :: "coreaudio_stream \<Rightarrow> bool" where
  "ring_inv s \<longleftrightarrow>
     held_frames s \<le> bufsize_frames s \<and>
     lcl_offs_frames s < bufsize_frames s \<and>
     wri_offs_frames s < bufsize_frames s \<and>
     unat (wri_offs_frames s) =
       (unat (lcl_offs_frames s) + unat (held_frames s)) mod unat (bufsize_frames s)"

definition cap_ring_inv :: "coreaudio_stream \<Rightarrow> bool" where
  "cap_ring_inv s \<longleftrightarrow>
     cap_held_frames s \<le> cap_bufsize_frames s \<and> cap_offs_frames s < cap_bufsize_frames s"

text \<open>
  \<^verbatim>\<open>create_stream\<close> (line 638) takes \<^verbatim>\<open>bufsize_frames\<close> from \<^verbatim>\<open>muldiv\<close>, whose results are
  below \<open>2 ^ 31\<close>; with that bound no sum of an offset and a frame count of the ring
  wraps at 32 bits.
\<close>

definition stream_ok :: "coreaudio_stream \<Rightarrow> bool" where
  "stream_ok s \<longleftrightarrow> ring_inv s \<and> unat (bufsize_frames s) < 2 ^ 31"

text \<open>
  The ring holds whole frames: \<^verbatim>\<open>local_buffer\<close> has \<^verbatim>\<open>bufsize_frames * nBlockAlign\<close> bytes
  (line 682), a size that fits the 32-bit byte offsets the code computes.
\<close>

definition buffer_ok :: "coreaudio_stream \<Rightarrow> bool" where
  "buffer_ok s \<longleftrightarrow>
     0 < unat (block_align s) \<and>
     unat (bufsize_frames s) * unat (block_align s) < 2 ^ 32 \<and>
     length (local_buffer s) = unat (bufsize_frames s) * unat (block_align s)"

text \<open>
  The client ring as a whole, and the shared state of a stream that the lock protects:
  the offsets and held counts of both rings, the frame counter, the marker of the
  outstanding acquisition and the playing flag.
\<close>

definition client_ring :: "coreaudio_stream \<Rightarrow> UINT32 \<times> UINT32 \<times> UINT32 \<times> BYTE list" where
  "client_ring s = (lcl_offs_frames s, held_frames s, wri_offs_frames s, local_buffer s)"

definition shared_state ::
  "coreaudio_stream \<Rightarrow> UINT32 \<times> UINT32 \<times> UINT32 \<times> UINT32 \<times> UINT32 \<times> UINT64 \<times> INT32 \<times> bool" where
  "shared_state s =
     (lcl_offs_frames s, held_frames s, wri_offs_frames s, cap_offs_frames s, cap_held_frames s,
      written_frames s, getbuf_last s, playing s)"

text \<open>
  A stream with its raw capture ring and its wrap buffer blanked: two streams that
  agree on it differ in those four fields at most.
\<close>

definition without_raw_ring :: "coreaudio_stream \<Rightarrow> coreaudio_stream" where
  "without_raw_ring s =
     s\<lparr>wrap_buffer := [], wrap_bufsize_frames := 0, cap_offs_frames := 0, cap_held_frames := 0\<rparr>"

text \<open>Reading \<open>n\<close> bytes of a ring from byte offset \<open>offs\<close>, around its end.\<close>

definition ring_read :: "BYTE list \<Rightarrow> nat \<Rightarrow> nat \<Rightarrow> BYTE list" where
  "ring_read buf offs n = take n (drop offs (buf @ buf))"

subsection \<open>Streams to evaluate on\<close>

definition pcm16_mono :: WAVEFORMATEX where
  "pcm16_mono =
     \<lparr>wFormatTag = WAVE_FORMAT_PCM, nChannels = 1, nSamplesPerSec = 48000, nBlockAlign = 2,
      wBitsPerSample = 16, SubFormat = KSDATAFORMAT_SUBTYPE_other\<rparr>"

text \<open>A render stream of 8 frames holding 4, from frame 6 around the end to frame 2.\<close>

definition render_stream :: coreaudio_stream where
  "render_stream =
     \<lparr>flow = eRender, playing = True, period_frames = 4, bufsize_frames = 8,
      resamp_bufsize_frames = 0, lcl_offs_frames = 6, held_frames = 4, wri_offs_frames = 2,
      tmp_buffer_frames = 0, cap_bufsize_frames = 0, cap_offs_frames = 0, cap_held_frames = 0,
      wrap_bufsize_frames = 0, written_frames = 12, getbuf_last = 0, fmt = pcm16_mono,
      dev_desc_mSampleRate = 48000,
      local_buffer = [1, 2, 3, 4, 5, 6, 7, 8, 9, 10, 11, 12, 13, 14, 15, 16],
      cap_buffer = [], wrap_buffer = [], resamp_buffer = [], tmp_buffer = None\<rparr>"

text \<open>
  A capture stream of 8 frames, full from frame 4, with 16 raw frames waiting in a raw
  ring of 32.
\<close>

definition capture_stream :: coreaudio_stream where
  "capture_stream =
     \<lparr>flow = eCapture, playing = True, period_frames = 4, bufsize_frames = 8,
      resamp_bufsize_frames = 4, lcl_offs_frames = 4, held_frames = 8, wri_offs_frames = 4,
      tmp_buffer_frames = 0, cap_bufsize_frames = 32, cap_offs_frames = 0, cap_held_frames = 16,
      wrap_bufsize_frames = 0, written_frames = 20, getbuf_last = 0, fmt = pcm16_mono,
      dev_desc_mSampleRate = 48000,
      local_buffer = [1, 2, 3, 4, 5, 6, 7, 8, 9, 10, 11, 12, 13, 14, 15, 16],
      cap_buffer = replicate 64 7, wrap_buffer = [], resamp_buffer = replicate 8 0,
      tmp_buffer = None\<rparr>"

text \<open>
  A converter between equal rates: it pulls as many raw frames as it is asked to
  deliver and delivers them all, two bytes a frame.
\<close>

definition convert_1to1 :: converter where
  "convert_1to1 wanted =
     \<lparr>conv_pulls = [wanted], conv_status = noErr, conv_out_frames = wanted,
      conv_out_data = replicate (2 * unat wanted) 21\<rparr>"

text \<open>
  The render stream, empty at frame 6, with an indirect acquisition of 4 frames whose
  scratch buffer the client has filled.
\<close>

definition indirect_stream :: coreaudio_stream where
  "indirect_stream =
     render_stream\<lparr>lcl_offs_frames := 6, held_frames := 0, wri_offs_frames := 6,
       getbuf_last := - 4, tmp_buffer := Some [31, 32, 33, 34, 35, 36, 37, 38]\<rparr>"

text \<open>An 8-bit format, PCM through the extensible tag.\<close>

definition pcm8_mono :: WAVEFORMATEX where
  "pcm8_mono =
     \<lparr>wFormatTag = WAVE_FORMAT_EXTENSIBLE, nChannels = 1, nSamplesPerSec = 8000, nBlockAlign = 1,
      wBitsPerSample = 8, SubFormat = KSDATAFORMAT_SUBTYPE_PCM\<rparr>"

text \<open>A converter whose every call pulls what it is asked for and then fails.\<close>

definition convert_failing :: converter where
  "convert_failing wanted =
     \<lparr>conv_pulls = [wanted], conv_status = osErr (- 50), conv_out_frames = 0, conv_out_data = []\<rparr>"

text \<open>The same converter at every call of a drain.\<close>

definition steady :: "nat \<Rightarrow> converter" where "steady i = convert_1to1"

text \<open>A failing converter at every call.\<close>

definition failing :: "nat \<Rightarrow> converter" where "failing i = convert_failing"

text \<open>A converter that delivers a period without asking for input.\<close>

definition convert_no_input :: converter where
  "convert_no_input wanted =
     \<lparr>conv_pulls = [], conv_status = noErr, conv_out_frames = wanted,
      conv_out_data = replicate (2 * unat wanted) 21\<rparr>"

text \<open>That converter at every call of a drain.\<close>

definition stalled :: "nat \<Rightarrow> converter" where "stalled i = convert_no_input"

text \<open>The capture stream after a drain through the steady converter.\<close>

definition drained_stream :: coreaudio_stream where
  "drained_stream =
     capture_stream\<lparr>lcl_offs_frames := 12, cap_offs_frames := 8, cap_held_frames := 8,
       local_buffer := replicate 16 21, resamp_buffer := replicate 8 21\<rparr>"

text \<open>The capture stream with an empty client ring.\<close>

definition empty_capture_stream :: coreaudio_stream where
  "empty_capture_stream =
     capture_stream\<lparr>lcl_offs_frames := 0, held_frames := 0, wri_offs_frames := 0\<rparr>"

text \<open>The same after a drain through the steady converter: two periods have arrived.\<close>

definition filled_capture_stream :: coreaudio_stream where
  "filled_capture_stream =
     empty_capture_stream\<lparr>held_frames := 8, cap_offs_frames := 8, cap_held_frames := 8,
       local_buffer := replicate 16 21, resamp_buffer := replicate 8 21\<rparr>"

text \<open>The failures the client can recover from.\<close>

fun recoverable :: "HRESULT \<Rightarrow> bool" where
  "recoverable AUDCLNT_E_OUT_OF_ORDER = True"
| "recoverable AUDCLNT_E_INVALID_SIZE = True"
| "recoverable AUDCLNT_E_BUFFER_TOO_LARGE = True"
| "recoverable AUDCLNT_E_NOT_STOPPED = True"
| "recoverable AUDCLNT_E_BUFFER_OPERATION_PENDING = True"
| "recoverable E_OUTOFMEMORY = True"
| "recoverable S_OK = False"
| "recoverable S_FALSE = False"
| "recoverable AUDCLNT_S_BUFFER_EMPTY = False"




section \<open>Word arithmetic\<close>

lemma unat_ucast_32_64: "unat (ucast (x :: 32 word) :: 64 word) = unat x"
proof -
  have "unat x < 2 ^ 32" using unsigned_less [of x, where ?'a = nat] by simp
  then have "unat x < 2 ^ 64" by simp
  then show ?thesis
    by (simp add: unsigned_ucast_eq take_bit_nat_eq_self)
qed

lemma unat_ucast_16_32: "unat (ucast (x :: 16 word) :: 32 word) = unat x"
proof -
  have "unat x < 2 ^ 16" using unsigned_less [of x, where ?'a = nat] by simp
  then have "unat x < 2 ^ 32" by simp
  then show ?thesis
    by (simp add: unsigned_ucast_eq take_bit_nat_eq_self)
qed

lemma int_mod_shift_down: "m \<le> x \<Longrightarrow> x < 2 * m \<Longrightarrow> (x :: int) mod m = x - m"
proof -
  assume a: "m \<le> x" "x < 2 * m"
  have "x mod m = ((x - m) + m) mod m" by simp
  also have "\<dots> = (x - m) mod m" by (rule mod_add_self2)
  also have "\<dots> = x - m" by (rule mod_pos_pos_trivial) (use a in simp_all)
  finally show ?thesis .
qed

lemma int_mod_neg: "0 < x \<Longrightarrow> x < m \<Longrightarrow> (- x :: int) mod m = m - x"
  by (simp add: zmod_zminus1_eq_if mod_pos_pos_trivial)

lemma sint_32_cases:
  "sint (g :: 32 word) = (if uint g < 2147483648 then uint g else uint g - 4294967296)"
proof -
  have b: "0 \<le> uint g" "uint g < 4294967296" using uint_bounded [of g] by simp_all
  have e: "sint g = (uint g + 2147483648) mod 4294967296 - 2147483648"
    by (simp add: sint_uint signed_take_bit_eq_take_bit_shift take_bit_eq_mod)
  show ?thesis
  proof (cases "uint g < 2147483648")
    case True
    then have "(uint g + 2147483648) mod 4294967296 = uint g + 2147483648"
      using b by (simp add: mod_pos_pos_trivial)
    with e True show ?thesis by simp
  next
    case False
    then have "(uint g + 2147483648) mod 4294967296 = (uint g + 2147483648) - 4294967296"
      using b by (intro int_mod_shift_down) simp_all
    then show ?thesis using e False by simp
  qed
qed

text \<open>
  The magnitude that \<^verbatim>\<open>release_render_buffer\<close> compares against,
  \<^verbatim>\<open>getbuf_last >= 0 ? getbuf_last : -getbuf_last\<close> converted to \<^verbatim>\<open>UINT32\<close>, is the absolute
  value of \<^verbatim>\<open>getbuf_last\<close>.
\<close>

lemma unat_abs_word: "unat (if 0 \<le> sint (g :: 32 word) then g else - g) = nat \<bar>sint g\<bar>"
proof -
  have b: "0 \<le> uint g" "uint g < 4294967296" using uint_bounded [of g] by simp_all
  have m: "uint (- g) = (- uint g) mod 4294967296" by (simp add: uint_word_ariths)
  show ?thesis
  proof (cases "uint g < 2147483648")
    case True
    then show ?thesis using b by (simp add: sint_32_cases)
  next
    case False
    then have "(- uint g) mod 4294967296 = 4294967296 - uint g"
      using b by (intro int_mod_neg) simp_all
    with False m show ?thesis using b by (simp add: sint_32_cases unat_eq_nat_uint)
  qed
qed

lemma unat_add_mod_32:
  "unat a + unat b < 4294967296 \<Longrightarrow>
   unat ((a + b) mod (m :: 32 word)) = (unat a + unat b) mod unat m"
  by (simp add: unat_mod unat_word_ariths)

lemma unat_mult_32:
  "unat a * unat b < 4294967296 \<Longrightarrow> unat (a * b :: 32 word) = unat a * unat b"
  by (simp add: unat_word_ariths)

lemma unat_add_32:
  "unat a + unat b < 4294967296 \<Longrightarrow> unat (a + b :: 32 word) = unat a + unat b"
  by (simp add: unat_word_ariths)

section \<open>Streams that satisfy the invariants\<close>

lemma stream_ok_bounds:
  assumes "stream_ok s"
  shows "unat (held_frames s) \<le> unat (bufsize_frames s)"
    and "unat (lcl_offs_frames s) < unat (bufsize_frames s)"
    and "unat (wri_offs_frames s) < unat (bufsize_frames s)"
    and "unat (bufsize_frames s) < 2147483648"
    and "unat (wri_offs_frames s) =
           (unat (lcl_offs_frames s) + unat (held_frames s)) mod unat (bufsize_frames s)"
  using assms by (simp_all add: stream_ok_def ring_inv_def word_le_nat_alt word_less_nat_alt)

lemma buffer_ok_products:
  assumes bok: "buffer_ok s" and x: "unat x \<le> unat (bufsize_frames s)"
  shows "unat (x * block_align s) = unat x * unat (block_align s)"
    and "unat x * unat (block_align s) \<le> length (local_buffer s)"
    and "unat (bufsize_frames s * block_align s) = length (local_buffer s)"
proof -
  have le: "unat x * unat (block_align s) \<le> unat (bufsize_frames s) * unat (block_align s)"
    using x by (rule mult_le_mono1)
  moreover have "unat (bufsize_frames s) * unat (block_align s) < 4294967296"
    using bok by (simp add: buffer_ok_def)
  ultimately have "unat x * unat (block_align s) < 4294967296"
    by (rule le_less_trans)
  then show "unat (x * block_align s) = unat x * unat (block_align s)"
    by (rule unat_mult_32)
  have "length (local_buffer s) = unat (bufsize_frames s) * unat (block_align s)"
    using bok by (simp add: buffer_ok_def)
  with le show "unat x * unat (block_align s) \<le> length (local_buffer s)"
    by (simp only:)
  show "unat (bufsize_frames s * block_align s) = length (local_buffer s)"
    using bok by (simp add: buffer_ok_def unat_mult_32)
qed

section \<open>Copies into and out of a ring\<close>

lemma length_memcpy:
  "doff + n \<le> length dst \<Longrightarrow> soff + n \<le> length src \<Longrightarrow>
   length (memcpy dst doff src soff n) = length dst"
  by (simp add: memcpy_def)

lemma length_memset:
  "doff + n \<le> length dst \<Longrightarrow> length (memset dst doff c n) = length dst"
  by (simp add: memset_def)

lemma ring_read_no_wrap:
  "offs + n \<le> length buf \<Longrightarrow> ring_read buf offs n = take n (drop offs buf)"
  by (simp add: ring_read_def)

lemma ring_read_wrap:
  "offs \<le> length buf \<Longrightarrow> length buf - offs \<le> n \<Longrightarrow>
   ring_read buf offs n = drop offs buf @ take (n - (length buf - offs)) buf"
  by (simp add: ring_read_def)

text \<open>The two copies of a wrapped write, on byte counts.\<close>

lemma wrap_write_read:
  assumes offs: "offs \<le> length dst" and n: "n \<le> length src" "n \<le> length dst"
    and wrap: "length dst - offs < n"
  defines "c \<equiv> length dst - offs"
  defines "r \<equiv> memcpy (memcpy dst offs src 0 c) 0 src c (n - c)"
  shows "length r = length dst" and "ring_read r offs n = take n src"
proof -
  have c: "c < n" "offs + c = length dst" "n - c \<le> offs"
    using offs n wrap by (simp_all add: c_def)
  have r1: "memcpy dst offs src 0 c = take offs dst @ take c src"
    using c by (simp add: memcpy_def)
  have lc: "length (take c src) = c" using c n by simp
  have r: "r = take (n - c) (drop c src) @ drop (n - c) (take offs dst) @ take c src"
    using c offs by (simp add: r_def r1 memcpy_def)
  show len: "length r = length dst"
    using c offs n by (simp add: r)
  have "drop offs r = take c src"
    using c offs n by (simp add: r)
  moreover have "length dst - offs = c" by (simp add: c_def)
  ultimately have "ring_read r offs n = take c src @ take (n - c) r"
    using c offs len lc by (simp add: ring_read_def)
  also have "take (n - c) r = take (n - c) (drop c src)"
    using c n by (simp add: r)
  also have "take c src @ take (n - c) (drop c src) = take n src"
    using c take_add [of c "n - c" src] by simp
  finally show "ring_read r offs n = take n src" .
qed

lemma straight_write_read:
  assumes "offs + n \<le> length dst" "n \<le> length src"
  shows "length (memcpy dst offs src 0 n) = length dst"
    and "ring_read (memcpy dst offs src 0 n) offs n = take n src"
  using assms by (simp_all add: memcpy_def ring_read_def)

lemma ca_wrap_buffer_read:
  assumes len: "length dst = unat dst_bytes" and offs: "dst_offs \<le> dst_bytes"
    and src: "unat src_bytes \<le> length src" and fits: "src_bytes \<le> dst_bytes"
  shows "length (ca_wrap_buffer dst dst_offs dst_bytes src src_bytes) = length dst"
    and "ring_read (ca_wrap_buffer dst dst_offs dst_bytes src src_bytes)
           (unat dst_offs) (unat src_bytes) = take (unat src_bytes) src"
proof -
  have c: "unat (dst_bytes - dst_offs) = length dst - unat dst_offs"
    using offs len by (simp add: unat_sub)
  have o: "unat dst_offs \<le> length dst" using offs len by (simp add: word_le_nat_alt)
  have n: "unat src_bytes \<le> length dst" using fits len by (simp add: word_le_nat_alt)
  show "length (ca_wrap_buffer dst dst_offs dst_bytes src src_bytes) = length dst"
  proof (cases "dst_bytes - dst_offs < src_bytes")
    case True
    then have w: "length dst - unat dst_offs < unat src_bytes"
      using c by (simp add: word_less_nat_alt)
    have "unat (src_bytes - (dst_bytes - dst_offs)) = unat src_bytes - (length dst - unat dst_offs)"
      using True c by (simp add: unat_sub)
    then show ?thesis
      using True c wrap_write_read(1) [OF o src n w] by (simp add: ca_wrap_buffer_def)
  next
    case False
    then have "unat dst_offs + unat src_bytes \<le> length dst"
      using c o by (simp add: word_less_nat_alt)
    then show ?thesis
      using False straight_write_read(1) [of "unat dst_offs" "unat src_bytes" dst src] src
      by (simp add: ca_wrap_buffer_def)
  qed
  show "ring_read (ca_wrap_buffer dst dst_offs dst_bytes src src_bytes)
           (unat dst_offs) (unat src_bytes) = take (unat src_bytes) src"
  proof (cases "dst_bytes - dst_offs < src_bytes")
    case True
    then have w: "length dst - unat dst_offs < unat src_bytes"
      using c by (simp add: word_less_nat_alt)
    have "unat (src_bytes - (dst_bytes - dst_offs)) = unat src_bytes - (length dst - unat dst_offs)"
      using True c by (simp add: unat_sub)
    then show ?thesis
      using True c wrap_write_read(2) [OF o src n w] by (simp add: ca_wrap_buffer_def)
  next
    case False
    then have "unat dst_offs + unat src_bytes \<le> length dst"
      using c o by (simp add: word_less_nat_alt)
    then show ?thesis
      using False straight_write_read(2) [of "unat dst_offs" "unat src_bytes" dst src] src
      by (simp add: ca_wrap_buffer_def)
  qed
qed

lemma silence_buffer_head:
  "unat (frames * block_align s) \<le> length buf \<Longrightarrow>
   length (silence_buffer s buf 0 frames) = length buf \<and>
   take (unat (frames * block_align s)) (silence_buffer s buf 0 frames) =
     replicate (unat (frames * block_align s)) (silence_byte (fmt s))"
  by (simp add: silence_buffer_def memset_def)

section \<open>Reset\<close>

text \<open>
  Claim C8. \<^verbatim>\<open>reset\<close> fails with \<^verbatim>\<open>AUDCLNT_E_NOT_STOPPED\<close> on a playing stream and with
  \<^verbatim>\<open>AUDCLNT_E_BUFFER_OPERATION_PENDING\<close> on a stopped stream with an acquisition
  outstanding, leaving the stream as it was in both cases. Otherwise it succeeds and
  zeroes the held count, both offsets of the client ring and both counters of the raw
  capture ring; \<^verbatim>\<open>written_frames\<close> becomes 0 on a render stream and grows by the held
  count of before the call on a capture stream (in 64 bits).
\<close>

theorem reset_spec:
  "(playing s \<longrightarrow> reset s = (AUDCLNT_E_NOT_STOPPED, s)) \<and>
   (\<not> playing s \<and> getbuf_last s \<noteq> 0 \<longrightarrow> reset s = (AUDCLNT_E_BUFFER_OPERATION_PENDING, s)) \<and>
   (\<not> playing s \<and> getbuf_last s = 0 \<longrightarrow>
      fst (reset s) = S_OK \<and>
      held_frames (snd (reset s)) = 0 \<and>
      lcl_offs_frames (snd (reset s)) = 0 \<and>
      wri_offs_frames (snd (reset s)) = 0 \<and>
      cap_offs_frames (snd (reset s)) = 0 \<and>
      cap_held_frames (snd (reset s)) = 0 \<and>
      unat (written_frames (snd (reset s))) =
        (if flow s = eRender then 0
         else (unat (written_frames s) + unat (held_frames s)) mod 2 ^ 64))"
  by (simp add: reset_def unat_word_ariths unat_ucast_32_64)

theorem reset_spec_witness:
  "reset render_stream = (AUDCLNT_E_NOT_STOPPED, render_stream) \<and>
   reset (render_stream\<lparr>playing := False, getbuf_last := 4\<rparr>) =
     (AUDCLNT_E_BUFFER_OPERATION_PENDING, render_stream\<lparr>playing := False, getbuf_last := 4\<rparr>) \<and>
   fst (reset (render_stream\<lparr>playing := False\<rparr>)) = S_OK \<and>
   held_frames (snd (reset (render_stream\<lparr>playing := False\<rparr>))) = 0 \<and>
   unat (written_frames (snd (reset (render_stream\<lparr>playing := False\<rparr>)))) = 0 \<and>
   unat (written_frames (snd (reset (capture_stream\<lparr>playing := False\<rparr>)))) = 28"
  using reset_spec [of render_stream]
    reset_spec [of "render_stream\<lparr>playing := False, getbuf_last := 4\<rparr>"]
    reset_spec [of "render_stream\<lparr>playing := False\<rparr>"]
    reset_spec [of "capture_stream\<lparr>playing := False\<rparr>"]
  by (simp add: render_stream_def capture_stream_def)

section \<open>Releasing zero frames\<close>

text \<open>
  Claim C10. With no acquisition outstanding, releasing zero frames succeeds, on the
  render side and on the capture side, and leaves the stream as it was: both release
  functions test for zero frames before they test \<^verbatim>\<open>getbuf_last\<close>.
\<close>

theorem release_zero_frames_accepted:
  "getbuf_last s = 0 \<Longrightarrow>
   release_render_buffer 0 flags s = Some (S_OK, s) \<and> release_capture_buffer 0 s = (S_OK, s)"
  by (simp add: release_render_buffer_def release_capture_buffer_def)

theorem release_zero_frames_accepted_witness:
  "getbuf_last render_stream = 0 \<and>
   release_render_buffer 0 0 render_stream = Some (S_OK, render_stream) \<and>
   release_capture_buffer 0 capture_stream = (S_OK, capture_stream)"
  using release_zero_frames_accepted [of render_stream 0]
    release_zero_frames_accepted [of capture_stream 0]
  by (simp add: render_stream_def capture_stream_def)

section \<open>Releasing a capture buffer\<close>

text \<open>
  Claim C6. With a capture acquisition of \<open>getbuf_last s\<close> frames outstanding,
  \<^verbatim>\<open>release_capture_buffer\<close> fails with \<^verbatim>\<open>AUDCLNT_E_INVALID_SIZE\<close> for every frame count
  that is neither that number nor 0, and leaves the stream as it was. Given exactly
  that number it succeeds, clears \<^verbatim>\<open>getbuf_last\<close> and adds the count to \<^verbatim>\<open>written_frames\<close>
  (in 64 bits); on a stream that still holds the frames handed out, and whose read
  offset plus the count stays below \<open>2 ^ 32\<close> (as it does under the ring invariants),
  the read offset advances by the count modulo the capacity and the held count drops
  by it. With nothing outstanding, a count other than 0 fails with
  \<^verbatim>\<open>AUDCLNT_E_OUT_OF_ORDER\<close>.
\<close>

theorem release_capture_buffer_spec:
  "(getbuf_last s \<noteq> 0 \<and> done_frames \<noteq> 0 \<and> done_frames \<noteq> getbuf_last s \<longrightarrow>
      release_capture_buffer done_frames s = (AUDCLNT_E_INVALID_SIZE, s)) \<and>
   (getbuf_last s \<noteq> 0 \<and> done_frames = getbuf_last s \<longrightarrow>
      fst (release_capture_buffer done_frames s) = S_OK \<and>
      getbuf_last (snd (release_capture_buffer done_frames s)) = 0 \<and>
      wri_offs_frames (snd (release_capture_buffer done_frames s)) = wri_offs_frames s \<and>
      unat (written_frames (snd (release_capture_buffer done_frames s))) =
        (unat (written_frames s) + unat done_frames) mod 2 ^ 64) \<and>
   (getbuf_last s \<noteq> 0 \<and> done_frames = getbuf_last s \<and>
    unat (lcl_offs_frames s) + unat done_frames < 2 ^ 32 \<and> done_frames \<le> held_frames s \<longrightarrow>
      unat (lcl_offs_frames (snd (release_capture_buffer done_frames s))) =
        (unat (lcl_offs_frames s) + unat done_frames) mod unat (bufsize_frames s) \<and>
      unat (held_frames (snd (release_capture_buffer done_frames s))) =
        unat (held_frames s) - unat done_frames) \<and>
   (getbuf_last s = 0 \<and> done_frames \<noteq> 0 \<longrightarrow>
      release_capture_buffer done_frames s = (AUDCLNT_E_OUT_OF_ORDER, s))"
proof -
  have nat_level:
    "unat (lcl_offs_frames (snd (release_capture_buffer done_frames s))) =
       (unat (lcl_offs_frames s) + unat done_frames) mod unat (bufsize_frames s) \<and>
     unat (held_frames (snd (release_capture_buffer done_frames s))) =
       unat (held_frames s) - unat done_frames"
    if g: "getbuf_last s \<noteq> 0" "done_frames = getbuf_last s"
      and fits: "unat (lcl_offs_frames s) + unat done_frames < 2 ^ 32"
      and le: "done_frames \<le> held_frames s"
  proof -
    have "unat (lcl_offs_frames s) + unat done_frames < 4294967296"
      using fits by simp
    then show ?thesis using g le
      by (simp add: release_capture_buffer_def unat_add_mod_32 unat_sub)
  qed
  have invalid: "getbuf_last s \<noteq> 0 \<and> done_frames \<noteq> 0 \<and> done_frames \<noteq> getbuf_last s \<longrightarrow>
      release_capture_buffer done_frames s = (AUDCLNT_E_INVALID_SIZE, s)"
    by (auto simp: release_capture_buffer_def)
  have success: "getbuf_last s \<noteq> 0 \<and> done_frames = getbuf_last s \<longrightarrow>
      fst (release_capture_buffer done_frames s) = S_OK \<and>
      getbuf_last (snd (release_capture_buffer done_frames s)) = 0 \<and>
      wri_offs_frames (snd (release_capture_buffer done_frames s)) = wri_offs_frames s \<and>
      unat (written_frames (snd (release_capture_buffer done_frames s))) =
        (unat (written_frames s) + unat done_frames) mod 2 ^ 64"
    by (simp add: release_capture_buffer_def unat_word_ariths unat_ucast_32_64)
  have order: "getbuf_last s = 0 \<and> done_frames \<noteq> 0 \<longrightarrow>
      release_capture_buffer done_frames s = (AUDCLNT_E_OUT_OF_ORDER, s)"
    by (simp add: release_capture_buffer_def)
  from invalid success order nat_level show ?thesis by blast
qed

theorem release_capture_buffer_spec_witness:
  "release_capture_buffer 3 (capture_stream\<lparr>getbuf_last := 4\<rparr>) =
     (AUDCLNT_E_INVALID_SIZE, capture_stream\<lparr>getbuf_last := 4\<rparr>) \<and>
   fst (release_capture_buffer 4 (capture_stream\<lparr>getbuf_last := 4\<rparr>)) = S_OK \<and>
   unat (written_frames (snd (release_capture_buffer 4 (capture_stream\<lparr>getbuf_last := 4\<rparr>)))) = 24 \<and>
   unat (lcl_offs_frames (snd (release_capture_buffer 4 (capture_stream\<lparr>getbuf_last := 4\<rparr>)))) = 0 \<and>
   unat (held_frames (snd (release_capture_buffer 4 (capture_stream\<lparr>getbuf_last := 4\<rparr>)))) = 4 \<and>
   release_capture_buffer 3 capture_stream = (AUDCLNT_E_OUT_OF_ORDER, capture_stream)"
  using release_capture_buffer_spec [of "capture_stream\<lparr>getbuf_last := 4\<rparr>" 3]
    release_capture_buffer_spec [of "capture_stream\<lparr>getbuf_last := 4\<rparr>" 4]
    release_capture_buffer_spec [of capture_stream 3]
  by (simp add: capture_stream_def)

section \<open>Releasing a render buffer\<close>

lemma release_render_buffer_invalid:
  "getbuf_last s \<noteq> 0 \<Longrightarrow> nat \<bar>sint (getbuf_last s)\<bar> < unat frames \<Longrightarrow>
   release_render_buffer frames flags s = Some (AUDCLNT_E_INVALID_SIZE, s)"
  using unat_abs_word [of "getbuf_last s"]
  by (auto simp: release_render_buffer_def word_less_nat_alt)

lemma release_render_buffer_order:
  "getbuf_last s = 0 \<Longrightarrow> frames \<noteq> 0 \<Longrightarrow>
   release_render_buffer frames flags s = Some (AUDCLNT_E_OUT_OF_ORDER, s)"
  by (simp add: release_render_buffer_def)

lemma release_render_buffer_commit:
  assumes g: "getbuf_last s \<noteq> 0" and f: "0 < unat frames"
    and le: "unat frames \<le> nat \<bar>sint (getbuf_last s)\<bar>"
    and tmp: "sint (getbuf_last s) < 0 \<longrightarrow> tmp_buffer s \<noteq> None"
    and ok: "stream_ok s"
  shows "\<exists>s'. release_render_buffer frames flags s = Some (S_OK, s') \<and>
           unat (wri_offs_frames s') =
             (unat (wri_offs_frames s) + unat frames) mod unat (bufsize_frames s) \<and>
           unat (held_frames s') = unat (held_frames s) + unat frames \<and>
           unat (written_frames s') = (unat (written_frames s) + unat frames) mod 2 ^ 64 \<and>
           lcl_offs_frames s' = lcl_offs_frames s \<and>
           getbuf_last s' = 0"
proof -
  have f0: "frames \<noteq> 0" using f by (auto simp: unat_eq_0)
  have nb: "\<not> (if 0 \<le> sint (getbuf_last s) then getbuf_last s else - getbuf_last s) < frames"
    using le unat_abs_word [of "getbuf_last s"] by (simp add: word_less_nat_alt)
  have "\<bar>sint (getbuf_last s)\<bar> \<le> 2147483648"
    using sint_32_cases [of "getbuf_last s"] uint_bounded [of "getbuf_last s"]
    by (simp split: if_splits)
  then have fb: "unat frames \<le> 2147483648" using le by linarith
  have w: "unat (wri_offs_frames s) + unat frames < 4294967296"
    and h: "unat (held_frames s) + unat frames < 4294967296"
    using stream_ok_bounds(1,3,4) [OF ok] fb by simp_all
  show ?thesis
  proof (cases "0 \<le> sint (getbuf_last s)")
    case True
    with g f0 nb w h show ?thesis
      by (simp add: release_render_buffer_def unat_add_mod_32 unat_add_32
          unat_word_ariths(1) [where 'a = 64] unat_ucast_32_64)
  next
    case False
    with tmp obtain b where "tmp_buffer s = Some b" by auto
    with False g f0 nb w h show ?thesis
      by (simp add: release_render_buffer_def Let_def unat_add_mod_32 unat_add_32
          unat_word_ariths(1) [where 'a = 64] unat_ucast_32_64)
  qed
qed

lemma release_render_buffer_indirect_data:
  assumes neg: "sint (getbuf_last s) < 0" and f: "0 < unat frames"
    and le: "unat frames \<le> nat \<bar>sint (getbuf_last s)\<bar>"
    and tmp: "tmp_buffer s = Some tmp"
    and ok: "stream_ok s" and bok: "buffer_ok s"
    and room: "unat frames \<le> unat (bufsize_frames s)"
    and tl: "unat frames * unat (block_align s) \<le> length tmp"
    and rel: "release_render_buffer frames flags s = Some (S_OK, s')"
  shows "length (local_buffer s') = length (local_buffer s) \<and>
         ring_read (local_buffer s') (unat (wri_offs_frames s) * unat (block_align s))
           (unat frames * unat (block_align s)) =
         (if flags AND AUDCLNT_BUFFERFLAGS_SILENT \<noteq> 0
          then replicate (unat frames * unat (block_align s)) (silence_byte (fmt s))
          else take (unat frames * unat (block_align s)) tmp)"
proof -
  define buffer where
    "buffer = (if flags AND AUDCLNT_BUFFERFLAGS_SILENT \<noteq> 0 then silence_buffer s tmp 0 frames else tmp)"
  have g: "getbuf_last s \<noteq> 0" using neg by auto
  have f0: "frames \<noteq> 0" using f by (auto simp: unat_eq_0)
  have nb: "\<not> (if 0 \<le> sint (getbuf_last s) then getbuf_last s else - getbuf_last s) < frames"
    using le unat_abs_word [of "getbuf_last s"] by (simp add: word_less_nat_alt)
  have "release_render_buffer frames flags s =
      Some (S_OK,
        s\<lparr>tmp_buffer := Some buffer,
          local_buffer :=
            ca_wrap_buffer (local_buffer s) (wri_offs_frames s * block_align s)
              (bufsize_frames s * block_align s) buffer (frames * block_align s),
          wri_offs_frames := (wri_offs_frames s + frames) mod bufsize_frames s,
          held_frames := held_frames s + frames,
          written_frames := written_frames s + ucast frames,
          getbuf_last := 0\<rparr>)"
    using neg g f0 nb tmp by (simp add: release_render_buffer_def Let_def buffer_def)
  with rel have lb: "local_buffer s' =
      ca_wrap_buffer (local_buffer s) (wri_offs_frames s * block_align s)
        (bufsize_frames s * block_align s) buffer (frames * block_align s)"
    by auto
  have wle: "unat (wri_offs_frames s) \<le> unat (bufsize_frames s)"
    using stream_ok_bounds(3) [OF ok] by simp
  note pw = buffer_ok_products [OF bok wle]
  note pf = buffer_ok_products [OF bok room]
  have fb: "unat (frames * block_align s) \<le> length tmp" using tl pf(1) by simp
  have len: "length (local_buffer s) = unat (bufsize_frames s * block_align s)"
    using buffer_ok_products(3) [OF bok order_refl] by simp
  have offs: "wri_offs_frames s * block_align s \<le> bufsize_frames s * block_align s"
    using pw by (simp add: word_le_nat_alt)
  have src: "unat (frames * block_align s) \<le> length buffer"
    using fb silence_buffer_head [OF fb] by (simp add: buffer_def)
  have fits: "frames * block_align s \<le> bufsize_frames s * block_align s"
    using pf by (simp add: word_le_nat_alt)
  have "take (unat (frames * block_align s)) buffer =
      (if flags AND AUDCLNT_BUFFERFLAGS_SILENT \<noteq> 0
       then replicate (unat (frames * block_align s)) (silence_byte (fmt s))
       else take (unat (frames * block_align s)) tmp)"
    using silence_buffer_head [OF fb] by (simp add: buffer_def)
  then show ?thesis
    using ca_wrap_buffer_read [OF len offs src fits] lb pw(1) pf(1) by simp
qed

lemma release_render_buffer_direct_data:
  assumes "0 \<le> sint (getbuf_last s)" "flags AND AUDCLNT_BUFFERFLAGS_SILENT = 0"
    and "release_render_buffer frames flags s = Some (S_OK, s')"
  shows "local_buffer s' = local_buffer s"
  using assms by (auto simp: release_render_buffer_def split: if_splits)

text \<open>
  Claim C4. With a render acquisition of magnitude \<open>\<bar>sint (getbuf_last s)\<bar>\<close> outstanding,
  \<^verbatim>\<open>release_render_buffer\<close> fails with \<^verbatim>\<open>AUDCLNT_E_INVALID_SIZE\<close> when asked to commit more
  frames than that. Asked for a positive count within it, on a stream that satisfies
  the ring invariants, it succeeds: the write offset advances by the count modulo the
  capacity, the held count and \<^verbatim>\<open>written_frames\<close> grow by the count, the read offset
  stays and \<^verbatim>\<open>getbuf_last\<close> is cleared. After an indirect acquisition the ring then
  holds, from the old write offset and around its end, the bytes of the scratch
  buffer (silence if the silent flag is set); after a direct one without the flag the
  ring's bytes are the ones the client wrote in place. With nothing outstanding, a
  count other than 0 fails with \<^verbatim>\<open>AUDCLNT_E_OUT_OF_ORDER\<close>.
\<close>

theorem release_render_buffer_spec:
  "(getbuf_last s \<noteq> 0 \<and> nat \<bar>sint (getbuf_last s)\<bar> < unat frames \<longrightarrow>
      release_render_buffer frames flags s = Some (AUDCLNT_E_INVALID_SIZE, s)) \<and>
   (getbuf_last s \<noteq> 0 \<and> 0 < unat frames \<and> unat frames \<le> nat \<bar>sint (getbuf_last s)\<bar> \<and>
    (sint (getbuf_last s) < 0 \<longrightarrow> tmp_buffer s \<noteq> None) \<and> stream_ok s \<longrightarrow>
      (\<exists>s'. release_render_buffer frames flags s = Some (S_OK, s') \<and>
            unat (wri_offs_frames s') =
              (unat (wri_offs_frames s) + unat frames) mod unat (bufsize_frames s) \<and>
            unat (held_frames s') = unat (held_frames s) + unat frames \<and>
            unat (written_frames s') = (unat (written_frames s) + unat frames) mod 2 ^ 64 \<and>
            lcl_offs_frames s' = lcl_offs_frames s \<and>
            getbuf_last s' = 0)) \<and>
   (sint (getbuf_last s) < 0 \<and> 0 < unat frames \<and> unat frames \<le> nat \<bar>sint (getbuf_last s)\<bar> \<and>
    tmp_buffer s = Some tmp \<and> stream_ok s \<and> buffer_ok s \<and>
    unat frames \<le> unat (bufsize_frames s) \<and>
    unat frames * unat (block_align s) \<le> length tmp \<and>
    release_render_buffer frames flags s = Some (S_OK, s') \<longrightarrow>
      length (local_buffer s') = length (local_buffer s) \<and>
      ring_read (local_buffer s') (unat (wri_offs_frames s) * unat (block_align s))
        (unat frames * unat (block_align s)) =
      (if flags AND AUDCLNT_BUFFERFLAGS_SILENT \<noteq> 0
       then replicate (unat frames * unat (block_align s)) (silence_byte (fmt s))
       else take (unat frames * unat (block_align s)) tmp)) \<and>
   (0 \<le> sint (getbuf_last s) \<and> flags AND AUDCLNT_BUFFERFLAGS_SILENT = 0 \<and>
    release_render_buffer frames flags s = Some (S_OK, s') \<longrightarrow>
      local_buffer s' = local_buffer s) \<and>
   (getbuf_last s = 0 \<and> frames \<noteq> 0 \<longrightarrow>
      release_render_buffer frames flags s = Some (AUDCLNT_E_OUT_OF_ORDER, s))"
  using release_render_buffer_invalid [of s frames flags]
    release_render_buffer_commit [of s frames flags]
    release_render_buffer_indirect_data [of s frames tmp flags s']
    release_render_buffer_direct_data [of s flags frames s']
    release_render_buffer_order [of s frames flags]
  by blast

lemma sint_minus_4: "sint (- 4 :: 32 word) = - 4"
  by simp

theorem release_render_buffer_spec_witness:
  "release_render_buffer 5 0 (render_stream\<lparr>getbuf_last := 4\<rparr>) =
     Some (AUDCLNT_E_INVALID_SIZE, render_stream\<lparr>getbuf_last := 4\<rparr>) \<and>
   (\<exists>s'. release_render_buffer 3 0 (render_stream\<lparr>getbuf_last := 4\<rparr>) = Some (S_OK, s') \<and>
      unat (wri_offs_frames s') = 5 \<and> unat (held_frames s') = 7 \<and>
      unat (written_frames s') = 15 \<and> getbuf_last s' = 0 \<and>
      local_buffer s' = local_buffer render_stream) \<and>
   (\<exists>s'. release_render_buffer 4 0 indirect_stream = Some (S_OK, s') \<and>
      ring_read (local_buffer s') 12 8 = [31, 32, 33, 34, 35, 36, 37, 38]) \<and>
   release_render_buffer 3 0 render_stream = Some (AUDCLNT_E_OUT_OF_ORDER, render_stream)"
proof -
  let ?d = "render_stream\<lparr>getbuf_last := 4\<rparr>"
  have ok: "stream_ok ?d" "stream_ok indirect_stream" "buffer_ok indirect_stream"
    by (simp_all add: stream_ok_def ring_inv_def buffer_ok_def block_align_def render_stream_def
        indirect_stream_def pcm16_mono_def)
  have a: "release_render_buffer 5 0 ?d = Some (AUDCLNT_E_INVALID_SIZE, ?d)"
    using release_render_buffer_spec [of ?d 5 0] by (simp add: render_stream_def)
  obtain s1 where s1: "release_render_buffer 3 0 ?d = Some (S_OK, s1)"
    "unat (wri_offs_frames s1) = 5" "unat (held_frames s1) = 7"
    "unat (written_frames s1) = 15" "getbuf_last s1 = 0"
    using release_render_buffer_spec [of ?d 3 0] ok(1) by (auto simp: render_stream_def)
  have s1b: "local_buffer s1 = local_buffer render_stream"
    using release_render_buffer_spec [of ?d 3 0 _ s1] s1(1)
    by (simp add: render_stream_def AUDCLNT_BUFFERFLAGS_SILENT_def)
  obtain s2 where s2: "release_render_buffer 4 0 indirect_stream = Some (S_OK, s2)"
    using release_render_buffer_spec [of indirect_stream 4 0] ok(2) sint_minus_4
    by (auto simp: indirect_stream_def)
  have s2b: "ring_read (local_buffer s2) 12 8 = [31, 32, 33, 34, 35, 36, 37, 38]"
    using release_render_buffer_spec [of indirect_stream 4 0 "[31, 32, 33, 34, 35, 36, 37, 38]" s2]
      s2 ok(2,3) sint_minus_4
    by (simp add: indirect_stream_def render_stream_def block_align_def pcm16_mono_def
        AUDCLNT_BUFFERFLAGS_SILENT_def)
  have d: "release_render_buffer 3 0 render_stream = Some (AUDCLNT_E_OUT_OF_ORDER, render_stream)"
    using release_render_buffer_spec [of render_stream 3 0] by (simp add: render_stream_def)
  from a s1 s1b s2 s2b d show ?thesis by blast
qed

section \<open>The render callback\<close>

lemma length_ring_read:
  "offs \<le> length buf \<Longrightarrow> n \<le> length buf \<Longrightarrow> length (ring_read buf offs n) = n"
  by (simp add: ring_read_def)

text \<open>The one or two copies of a read that may wrap, on byte counts.\<close>

lemma wrap_read:
  assumes offs: "offs \<le> length buf" and n: "n \<le> length buf" "n \<le> length dst"
  shows "(if length buf - offs < n
          then memcpy (memcpy dst 0 buf offs (length buf - offs)) (length buf - offs) buf 0
                 (n - (length buf - offs))
          else memcpy dst 0 buf offs n) = ring_read buf offs n @ drop n dst"
proof (cases "length buf - offs < n")
  case True
  define c where "c = length buf - offs"
  have c: "c < n" "c \<le> length dst" "length (drop offs buf) = c"
    using True n by (simp_all add: c_def)
  have m1: "memcpy dst 0 buf offs c = drop offs buf @ drop c dst"
    using c by (simp add: memcpy_def)
  have "memcpy (memcpy dst 0 buf offs c) c buf 0 (n - c) =
      drop offs buf @ take (n - c) buf @ drop n dst"
    using c n by (simp add: m1 memcpy_def)
  moreover have "ring_read buf offs n = drop offs buf @ take (n - c) buf"
    using offs True by (simp add: ring_read_wrap c_def)
  ultimately show ?thesis using True by (simp add: c_def)
next
  case False
  then have "offs + n \<le> length buf" using offs by simp
  then show ?thesis using False by (simp add: ring_read_no_wrap memcpy_def)
qed

lemma memset_tail:
  "length xs = n \<Longrightarrow> n + m = length dst \<Longrightarrow>
   memset (xs @ drop n dst) n c m = xs @ replicate m c"
  by (simp add: memset_def)

lemma unat_min_32: "unat (min a b :: 32 word) = min (unat a) (unat b)"
  by (simp add: min_def word_le_nat_alt)

lemma ca_render_cb_playing_unfold:
  "playing s \<Longrightarrow>
   ca_render_cb nframes mData s =
     (let tc = min nframes (held_frames s);
          chunk = (bufsize_frames s - lcl_offs_frames s) * block_align s;
          mData1 =
            (if chunk < tc * block_align s then
               memcpy (memcpy mData 0 (local_buffer s) (unat (lcl_offs_frames s * block_align s))
                         (unat chunk))
                 (unat chunk) (local_buffer s) 0 (unat (tc * block_align s - chunk))
             else memcpy mData 0 (local_buffer s) (unat (lcl_offs_frames s * block_align s))
                    (unat (tc * block_align s)))
      in (if tc < nframes
          then memset mData1 (unat (tc * block_align s)) (silence_byte (fmt s))
                 (unat ((nframes - tc) * block_align s))
          else mData1,
          s\<lparr>lcl_offs_frames := (lcl_offs_frames s + tc) mod bufsize_frames s,
            held_frames := held_frames s - tc\<rparr>))"
  by (simp add: ca_render_cb_def Let_def silence_buffer_def block_align_def)

lemma ca_render_cb_playing:
  assumes pl: "playing s" and ok: "stream_ok s" and bok: "buffer_ok s"
    and len: "length mData = unat nframes * unat (block_align s)"
    and fit: "unat nframes * unat (block_align s) < 4294967296"
  defines "k \<equiv> min (unat nframes) (unat (held_frames s))"
  shows "fst (ca_render_cb nframes mData s) =
           ring_read (local_buffer s) (unat (lcl_offs_frames s) * unat (block_align s))
             (k * unat (block_align s)) @
           replicate ((unat nframes - k) * unat (block_align s)) (silence_byte (fmt s))"
    and "snd (ca_render_cb nframes mData s) =
           s\<lparr>lcl_offs_frames := (lcl_offs_frames s + min nframes (held_frames s)) mod bufsize_frames s,
             held_frames := held_frames s - min nframes (held_frames s)\<rparr>"
    and "unat ((lcl_offs_frames s + min nframes (held_frames s)) mod bufsize_frames s) =
           (unat (lcl_offs_frames s) + k) mod unat (bufsize_frames s)"
    and "unat (held_frames s - min nframes (held_frames s)) = unat (held_frames s) - k"
proof -
  let ?ba = "block_align s"
  let ?tc = "min nframes (held_frames s)"
  let ?lb = "local_buffer s"
  let ?chunk = "(bufsize_frames s - lcl_offs_frames s) * ?ba"
  note b = stream_ok_bounds [OF ok]
  have tc: "unat ?tc = k" by (simp add: unat_min_32 k_def)
  have kH: "k \<le> unat (held_frames s)" and kN: "k \<le> unat nframes" by (simp_all add: k_def)
  have kB: "unat ?tc \<le> unat (bufsize_frames s)" using tc kH b(1) by simp
  have lB: "unat (lcl_offs_frames s) \<le> unat (bufsize_frames s)" using b(2) by simp
  have dl: "unat (bufsize_frames s - lcl_offs_frames s) =
      unat (bufsize_frames s) - unat (lcl_offs_frames s)"
    using lB by (simp add: unat_sub word_le_nat_alt)
  then have dB: "unat (bufsize_frames s - lcl_offs_frames s) \<le> unat (bufsize_frames s)" by simp
  note pl_ = buffer_ok_products [OF bok lB]
  note pk = buffer_ok_products [OF bok kB]
  note pd = buffer_ok_products [OF bok dB]
  have offs: "unat (lcl_offs_frames s * ?ba) \<le> length ?lb" using pl_(1,2) by simp
  have n: "unat (?tc * ?ba) \<le> length ?lb" using pk(1,2) by simp
  have n2: "unat (?tc * ?ba) \<le> length mData"
    using pk(1) tc kN len by simp
  have chunk: "unat ?chunk = length ?lb - unat (lcl_offs_frames s * ?ba)"
    using pd(1) pl_(1) dl bok by (simp add: buffer_ok_def diff_mult_distrib)
  have cond: "?chunk < ?tc * ?ba \<longleftrightarrow> length ?lb - unat (lcl_offs_frames s * ?ba) < unat (?tc * ?ba)"
    using chunk by (simp add: word_less_nat_alt)
  have sub: "?chunk < ?tc * ?ba \<Longrightarrow>
      unat (?tc * ?ba - ?chunk) = unat (?tc * ?ba) - (length ?lb - unat (lcl_offs_frames s * ?ba))"
    using chunk by (simp add: unat_sub)
  have m1: "(if ?chunk < ?tc * ?ba then
               memcpy (memcpy mData 0 ?lb (unat (lcl_offs_frames s * ?ba)) (unat ?chunk))
                 (unat ?chunk) ?lb 0 (unat (?tc * ?ba - ?chunk))
             else memcpy mData 0 ?lb (unat (lcl_offs_frames s * ?ba)) (unat (?tc * ?ba))) =
      ring_read ?lb (unat (lcl_offs_frames s * ?ba)) (unat (?tc * ?ba)) @
        drop (unat (?tc * ?ba)) mData"
    using wrap_read [OF offs n n2] cond sub chunk by (simp only: split: if_splits) auto
  have rest: "unat (nframes - ?tc) = unat nframes - k"
    using tc by (simp add: unat_sub)
  have "(unat nframes - k) * unat ?ba \<le> unat nframes * unat ?ba"
    by (rule mult_le_mono1) simp
  then have "(unat nframes - k) * unat ?ba < 4294967296"
    using fit by (rule le_less_trans)
  then have "unat (nframes - ?tc) * unat ?ba < 4294967296"
    by (simp only: rest)
  then have "unat ((nframes - ?tc) * ?ba) = unat (nframes - ?tc) * unat ?ba"
    by (rule unat_mult_32)
  then have rb: "unat ((nframes - ?tc) * ?ba) = (unat nframes - k) * unat ?ba"
    by (simp only: rest)
  have total: "unat (?tc * ?ba) + (unat nframes - k) * unat ?ba = length mData"
    using pk(1) tc kN len by (simp add: add_mult_distrib [symmetric])
  have lr: "length (ring_read ?lb (unat (lcl_offs_frames s * ?ba)) (unat (?tc * ?ba))) =
      unat (?tc * ?ba)"
    using offs n by (rule length_ring_read)
  have lt: "?tc < nframes \<longleftrightarrow> k < unat nframes" using tc by (simp add: word_less_nat_alt)
  show "fst (ca_render_cb nframes mData s) =
           ring_read ?lb (unat (lcl_offs_frames s) * unat ?ba) (k * unat ?ba) @
           replicate ((unat nframes - k) * unat ?ba) (silence_byte (fmt s))"
  proof (cases "?tc < nframes")
    case True
    then show ?thesis
      using memset_tail [OF lr total] m1 rb pl_(1) pk(1) tc
      by (simp add: ca_render_cb_playing_unfold [OF pl] Let_def)
  next
    case False
    then have "k = unat nframes" using lt kN by simp
    then have "drop (unat (?tc * ?ba)) mData = []" using pk(1) tc len by simp
    then show ?thesis
      using False m1 pl_(1) pk(1) tc \<open>k = unat nframes\<close>
      by (simp add: ca_render_cb_playing_unfold [OF pl] Let_def)
  qed
  show "snd (ca_render_cb nframes mData s) =
           s\<lparr>lcl_offs_frames := (lcl_offs_frames s + ?tc) mod bufsize_frames s,
             held_frames := held_frames s - ?tc\<rparr>"
    by (simp add: ca_render_cb_playing_unfold [OF pl] Let_def)
  have "unat (lcl_offs_frames s) + unat ?tc < 4294967296" using b(2,4) kB by simp
  then show "unat ((lcl_offs_frames s + ?tc) mod bufsize_frames s) =
           (unat (lcl_offs_frames s) + k) mod unat (bufsize_frames s)"
    using tc by (simp add: unat_add_mod_32)
  show "unat (held_frames s - ?tc) = unat (held_frames s) - k"
    using tc by (simp add: unat_sub)
qed

lemma ca_render_cb_stopped:
  assumes np: "\<not> playing s"
    and len: "length mData = unat nframes * unat (block_align s)"
    and fit: "unat nframes * unat (block_align s) < 4294967296"
  shows "ca_render_cb nframes mData s =
           (replicate (unat nframes * unat (block_align s)) (silence_byte (fmt s)), s)"
proof (cases "0 < nframes")
  case True
  then show ?thesis
    using np len unat_mult_32 [OF fit]
    by (simp add: ca_render_cb_def silence_buffer_def memset_def)
next
  case False
  then have "nframes = 0" by (simp add: word_greater_zero_iff)
  then show ?thesis using np len by (simp add: ca_render_cb_def)
qed

text \<open>
  Claim C3. A render callback for \<open>nframes\<close> frames on a playing stream copies
  \<open>min nframes held_frames\<close> frames out of the ring, read from the read offset and
  around the end of the ring, and fills the rest of the destination with the silence
  byte; the read offset advances by that amount modulo the capacity, the held count
  drops by it and nothing else in the stream changes. On a stopped stream the whole
  destination is silence and the stream is as it was. The silence byte is 128 for 8-bit
  PCM (plain, or extensible with the PCM sub-format) and 0 for every other format. The
  stream satisfies the ring invariants, the ring has its \<^verbatim>\<open>bufsize_frames * nBlockAlign\<close>
  bytes and the destination the \<^verbatim>\<open>nframes * nBlockAlign\<close> bytes the host asks for.
\<close>

theorem ca_render_cb_spec:
  "(playing s \<and> stream_ok s \<and> buffer_ok s \<and>
    length mData = unat nframes * unat (block_align s) \<and>
    unat nframes * unat (block_align s) < 2 ^ 32 \<longrightarrow>
      fst (ca_render_cb nframes mData s) =
        ring_read (local_buffer s) (unat (lcl_offs_frames s) * unat (block_align s))
          (min (unat nframes) (unat (held_frames s)) * unat (block_align s)) @
        replicate ((unat nframes - min (unat nframes) (unat (held_frames s))) * unat (block_align s))
          (silence_byte (fmt s)) \<and>
      unat (lcl_offs_frames (snd (ca_render_cb nframes mData s))) =
        (unat (lcl_offs_frames s) + min (unat nframes) (unat (held_frames s))) mod
          unat (bufsize_frames s) \<and>
      unat (held_frames (snd (ca_render_cb nframes mData s))) =
        unat (held_frames s) - min (unat nframes) (unat (held_frames s)) \<and>
      (snd (ca_render_cb nframes mData s))
        \<lparr>lcl_offs_frames := lcl_offs_frames s, held_frames := held_frames s\<rparr> = s) \<and>
   (\<not> playing s \<and> length mData = unat nframes * unat (block_align s) \<and>
    unat nframes * unat (block_align s) < 2 ^ 32 \<longrightarrow>
      ca_render_cb nframes mData s =
        (replicate (unat nframes * unat (block_align s)) (silence_byte (fmt s)), s)) \<and>
   silence_byte f =
     (if (wFormatTag f = WAVE_FORMAT_PCM \<or>
          wFormatTag f = WAVE_FORMAT_EXTENSIBLE \<and> SubFormat f = KSDATAFORMAT_SUBTYPE_PCM) \<and>
         wBitsPerSample f = 8
      then 128 else 0)"
proof -
  have sil: "silence_byte f =
     (if (wFormatTag f = WAVE_FORMAT_PCM \<or>
          wFormatTag f = WAVE_FORMAT_EXTENSIBLE \<and> SubFormat f = KSDATAFORMAT_SUBTYPE_PCM) \<and>
         wBitsPerSample f = 8
      then 128 else 0)"
    by (simp add: silence_byte_def)
  have p: "2 ^ 32 = (4294967296 :: nat)" by simp
  show ?thesis
    unfolding p
    using ca_render_cb_playing [of s mData nframes] ca_render_cb_stopped [of s mData nframes] sil
    by (intro conjI impI) (simp_all only:, simp_all)
qed

lemma replicate_4: "replicate 4 x = [x, x, x, x]"
  by (simp add: numeral_eq_Suc)

theorem ca_render_cb_spec_witness:
  "ca_render_cb 6 (replicate 12 255) render_stream =
     ([13, 14, 15, 16, 1, 2, 3, 4, 0, 0, 0, 0],
      render_stream\<lparr>lcl_offs_frames := 2, held_frames := 0\<rparr>) \<and>
   ca_render_cb 2 (replicate 4 255) (render_stream\<lparr>playing := False\<rparr>) =
     ([0, 0, 0, 0], render_stream\<lparr>playing := False\<rparr>) \<and>
   silence_byte pcm8_mono = 128 \<and> silence_byte pcm16_mono = 0"
proof -
  let ?s = "render_stream\<lparr>playing := False\<rparr>"
  have ok: "stream_ok render_stream" "buffer_ok render_stream"
    by (simp_all add: stream_ok_def ring_inv_def buffer_ok_def block_align_def render_stream_def
        pcm16_mono_def)
  have ba: "unat (block_align render_stream) = 2" "unat (block_align ?s) = 2"
    by (simp_all add: block_align_def render_stream_def pcm16_mono_def)
  have f: "fst (ca_render_cb 6 (replicate 12 255) render_stream) =
      [13, 14, 15, 16, 1, 2, 3, 4, 0, 0, 0, 0]"
    using ca_render_cb_spec [of render_stream "replicate 12 255" 6] ok ba
    by (simp add: render_stream_def ring_read_def silence_byte_def pcm16_mono_def replicate_4)
  have s: "snd (ca_render_cb 6 (replicate 12 255) render_stream) =
      render_stream\<lparr>lcl_offs_frames := 2, held_frames := 0\<rparr>"
    by (simp add: ca_render_cb_def render_stream_def Let_def)
  have a: "ca_render_cb 6 (replicate 12 255) render_stream =
      ([13, 14, 15, 16, 1, 2, 3, 4, 0, 0, 0, 0],
       render_stream\<lparr>lcl_offs_frames := 2, held_frames := 0\<rparr>)"
    using f s by (simp add: prod_eq_iff)
  have b: "ca_render_cb 2 (replicate 4 255) ?s = ([0, 0, 0, 0], ?s)"
    using ca_render_cb_spec [of ?s "replicate 4 255" 2] ba(2)
    by (simp add: render_stream_def silence_byte_def pcm16_mono_def replicate_4)
  have c: "silence_byte pcm8_mono = 128" "silence_byte pcm16_mono = 0"
    using ca_render_cb_spec [where f = pcm8_mono] ca_render_cb_spec [where f = pcm16_mono]
    by (simp_all add: pcm8_mono_def pcm16_mono_def)
  from a b c show ?thesis by simp
qed

section \<open>The capture resampler\<close>

lemma c_div_nonneg: "0 \<le> a \<Longrightarrow> 0 < b \<Longrightarrow> c_div a b = a div b"
  by (cases "a = 0") (simp_all add: c_div_def)

lemma uint_lt_of_unat_32: "unat (a :: 32 word) < n \<Longrightarrow> uint a < int n"
  by (simp only: uint_nat of_nat_less_iff)

lemma unat_word_of_int_32:
  "0 \<le> r \<Longrightarrow> r < 4294967296 \<Longrightarrow> unat (word_of_int r :: 32 word) = nat r"
  by (simp add: unat_eq_nat_uint uint_word_of_int mod_pos_pos_trivial)

lemma muldiv_nat:
  assumes a: "unat a < 2147483648" and b: "unat b < 2147483648"
    and c: "0 < unat c" "unat c < 2147483648"
    and r: "(unat a * unat b + unat c div 2) div unat c < 2147483648"
  shows "unat (muldiv a b c) = (unat a * unat b + unat c div 2) div unat c"
proof -
  let ?A = "uint a" and ?B = "uint b" and ?C = "uint c"
  have ua: "?A < 2147483648" using uint_lt_of_unat_32 [OF a] by simp
  have ub: "?B < 2147483648" using uint_lt_of_unat_32 [OF b] by simp
  have uc: "?C < 2147483648" using uint_lt_of_unat_32 [OF c(2)] by simp
  have cpos: "0 < ?C" using c(1) by (simp only: uint_nat of_nat_0_less_iff)
  have sa: "sint a = ?A" using ua by (simp add: sint_32_cases)
  have sb: "sint b = ?B" using ub by (simp add: sint_32_cases)
  have sc: "sint c = ?C" using uc by (simp add: sint_32_cases)
  have c0: "c \<noteq> 0" using c by (auto simp: unat_eq_0)
  have h: "c_div ?C 2 = ?C div 2" by (rule c_div_nonneg) simp_all
  have q: "c_div (?A * ?B + ?C div 2) ?C = (?A * ?B + ?C div 2) div ?C"
    using cpos by (intro c_div_nonneg) simp_all
  have n: "(?A * ?B + ?C div 2) div ?C = int ((unat a * unat b + unat c div 2) div unat c)"
    by (simp add: zdiv_int)
  have small: "(?A * ?B + ?C div 2) div ?C < 2147483648"
    using r unfolding n by simp
  have nonneg: "0 \<le> (?A * ?B + ?C div 2) div ?C"
    using cpos by (intro pos_imp_zdiv_nonneg_iff [THEN iffD2]) simp_all
  have "muldiv a b c = word_of_int ((?A * ?B + ?C div 2) div ?C)"
    using c0 small nonneg by (simp add: muldiv_def Let_def sa sb sc h q)
  then have "unat (muldiv a b c) = nat ((?A * ?B + ?C div 2) div ?C)"
    using small nonneg by (simp add: unat_word_of_int_32)
  then show ?thesis by (simp only: n nat_int)
qed

lemma round_nearest:
  fixes x c :: nat
  assumes "0 < c"
  shows "2 * ((x + c div 2) div c * c) \<le> 2 * x + c"
    and "2 * x < 2 * ((x + c div 2) div c * c) + c"
proof -
  define y where "y = x + c div 2"
  define q where "q = y div c * c"
  have d: "y = q + y mod c" by (simp add: q_def)
  have m: "y mod c < c" using assms by simp
  have h: "2 * (c div 2) \<le> c" "c \<le> 2 * (c div 2) + 1" by simp_all
  have "2 * q \<le> 2 * x + c" using d h y_def by linarith
  then show "2 * ((x + c div 2) div c * c) \<le> 2 * x + c" by (simp add: q_def y_def)
  have "2 * x < 2 * q + c" using d m h y_def by linarith
  then show "2 * x < 2 * ((x + c div 2) div c * c) + c" by (simp add: q_def y_def)
qed

lemma feed_cb_cap_held:
  "cap_held_frames (snd (feed_cb n s)) = cap_held_frames s - min n (cap_held_frames s)"
  by (simp add: feed_cb_def Let_def)

lemma feed_cb_unat_cap_held:
  "unat (cap_held_frames (snd (feed_cb n s))) =
     unat (cap_held_frames s) - min (unat n) (unat (cap_held_frames s))"
proof -
  have "min n (cap_held_frames s) \<le> cap_held_frames s" by simp
  then show ?thesis
    by (simp add: feed_cb_cap_held unat_sub unat_min_32)
qed

lemma feed_all_le: "unat (cap_held_frames (feed_all ns s)) \<le> unat (cap_held_frames s)"
proof (induction ns arbitrary: s)
  case Nil
  show ?case by simp
next
  case (Cons n ns)
  have "unat (cap_held_frames (feed_all ns (snd (feed_cb n s)))) \<le>
      unat (cap_held_frames (snd (feed_cb n s)))"
    by (rule Cons.IH)
  also have "\<dots> \<le> unat (cap_held_frames s)"
    by (simp add: feed_cb_unat_cap_held)
  finally show ?case by simp
qed

text \<open>A call that asks for a frame while the raw ring holds one takes one.\<close>

lemma feed_all_less:
  assumes "\<exists>n \<in> set ns. n \<noteq> 0" and "cap_held_frames s \<noteq> 0"
  shows "unat (cap_held_frames (feed_all ns s)) < unat (cap_held_frames s)"
  using assms
proof (induction ns arbitrary: s)
  case Nil
  then show ?case by simp
next
  case (Cons n ns)
  show ?case
  proof (cases "n = 0")
    case True
    then have same: "snd (feed_cb n s) = s" by (simp add: feed_cb_def)
    from True Cons.prems have "\<exists>m \<in> set ns. m \<noteq> 0" by auto
    then show ?thesis using Cons.IH [of s] Cons.prems(2) same by simp
  next
    case False
    then have "0 < unat n" by (simp add: unat_gt_0)
    moreover have "0 < unat (cap_held_frames s)" using Cons.prems(2) by (simp add: unat_gt_0)
    ultimately have "unat (cap_held_frames (snd (feed_cb n s))) < unat (cap_held_frames s)"
      by (simp add: feed_cb_unat_cap_held)
    moreover have "unat (cap_held_frames (feed_all ns (snd (feed_cb n s)))) \<le>
        unat (cap_held_frames (snd (feed_cb n s)))"
      by (rule feed_all_le)
    ultimately show ?thesis by simp
  qed
qed

text \<open>\<^verbatim>\<open>feed_cb\<close> touches the raw ring and the wrap buffer and nothing else.\<close>

lemma feed_cb_frame: "without_raw_ring (snd (feed_cb n s)) = without_raw_ring s"
  by (simp add: feed_cb_def Let_def without_raw_ring_def)

lemma feed_all_frame: "without_raw_ring (feed_all ns s) = without_raw_ring s"
  by (induction ns arbitrary: s) (simp_all add: feed_cb_frame)

lemma without_raw_ring_fields:
  assumes "without_raw_ring s' = without_raw_ring s"
  shows "lcl_offs_frames s' = lcl_offs_frames s" and "held_frames s' = held_frames s"
    and "wri_offs_frames s' = wri_offs_frames s" and "local_buffer s' = local_buffer s"
    and "bufsize_frames s' = bufsize_frames s" and "period_frames s' = period_frames s"
    and "fmt s' = fmt s" and "getbuf_last s' = getbuf_last s"
    and "written_frames s' = written_frames s" and "playing s' = playing s"
    and "flow s' = flow s" and "resamp_buffer s' = resamp_buffer s"
    and "resamp_bufsize_frames s' = resamp_bufsize_frames s"
    and "cap_bufsize_frames s' = cap_bufsize_frames s"
    and "tmp_buffer s' = tmp_buffer s" and "tmp_buffer_frames s' = tmp_buffer_frames s"
    and "dev_desc_mSampleRate s' = dev_desc_mSampleRate s"
proof -
  have "f (without_raw_ring s') = f (without_raw_ring s)" for f :: "coreaudio_stream \<Rightarrow> 'b"
    using assms by simp
  note e = this
  show "lcl_offs_frames s' = lcl_offs_frames s" using e [of lcl_offs_frames]
    by (simp add: without_raw_ring_def)
  show "held_frames s' = held_frames s" using e [of held_frames]
    by (simp add: without_raw_ring_def)
  show "wri_offs_frames s' = wri_offs_frames s" using e [of wri_offs_frames]
    by (simp add: without_raw_ring_def)
  show "local_buffer s' = local_buffer s" using e [of local_buffer]
    by (simp add: without_raw_ring_def)
  show "bufsize_frames s' = bufsize_frames s" using e [of bufsize_frames]
    by (simp add: without_raw_ring_def)
  show "period_frames s' = period_frames s" using e [of period_frames]
    by (simp add: without_raw_ring_def)
  show "fmt s' = fmt s" using e [of fmt]
    by (simp add: without_raw_ring_def)
  show "getbuf_last s' = getbuf_last s" using e [of getbuf_last]
    by (simp add: without_raw_ring_def)
  show "written_frames s' = written_frames s" using e [of written_frames]
    by (simp add: without_raw_ring_def)
  show "playing s' = playing s" using e [of playing]
    by (simp add: without_raw_ring_def)
  show "flow s' = flow s" using e [of flow]
    by (simp add: without_raw_ring_def)
  show "resamp_buffer s' = resamp_buffer s" using e [of resamp_buffer]
    by (simp add: without_raw_ring_def)
  show "resamp_bufsize_frames s' = resamp_bufsize_frames s" using e [of resamp_bufsize_frames]
    by (simp add: without_raw_ring_def)
  show "cap_bufsize_frames s' = cap_bufsize_frames s" using e [of cap_bufsize_frames]
    by (simp add: without_raw_ring_def)
  show "tmp_buffer s' = tmp_buffer s" using e [of tmp_buffer]
    by (simp add: without_raw_ring_def)
  show "tmp_buffer_frames s' = tmp_buffer_frames s" using e [of tmp_buffer_frames]
    by (simp add: without_raw_ring_def)
  show "dev_desc_mSampleRate s' = dev_desc_mSampleRate s" using e [of dev_desc_mSampleRate]
    by (simp add: without_raw_ring_def)
qed

lemmas feed_all_fields = without_raw_ring_fields [OF feed_all_frame]

lemma capture_resample_step_status:
  "fst (capture_resample_step c s) = conv_status (c (period_frames s))"
  by (simp add: capture_resample_step_def AudioConverterFillComplexBuffer_def Let_def)

lemma feed_all_resamp_update:
  "feed_all ns (s\<lparr>resamp_buffer := b, resamp_bufsize_frames := w\<rparr>) =
     (feed_all ns s)\<lparr>resamp_buffer := b, resamp_bufsize_frames := w\<rparr>"
proof (induction ns arbitrary: s)
  case Nil
  show ?case by simp
next
  case (Cons n ns)
  have "snd (feed_cb n (s\<lparr>resamp_buffer := b, resamp_bufsize_frames := w\<rparr>)) =
      (snd (feed_cb n s))\<lparr>resamp_buffer := b, resamp_bufsize_frames := w\<rparr>"
    by (simp add: feed_cb_def Let_def block_align_def)
  then show ?case using Cons.IH by simp
qed

lemma capture_resample_step_cap_held:
  "cap_held_frames (snd (capture_resample_step c s)) =
     cap_held_frames (feed_all (conv_pulls (c (period_frames s))) s)"
  by (simp add: capture_resample_step_def AudioConverterFillComplexBuffer_def Let_def
      feed_all_resamp_update)

text \<open>A failed conversion leaves the client ring as it was.\<close>

lemma capture_resample_step_failed:
  assumes "conv_status (c (period_frames s)) \<noteq> noErr"
  shows "client_ring (snd (capture_resample_step c s)) = client_ring s"
  using assms
  by (simp add: capture_resample_step_def AudioConverterFillComplexBuffer_def Let_def
      feed_all_resamp_update client_ring_def feed_all_fields)

lemma capture_resample_step_period:
  "period_frames (snd (capture_resample_step c s)) = period_frames s"
  by (simp add: capture_resample_step_def AudioConverterFillComplexBuffer_def Let_def
      feed_all_resamp_update feed_all_fields)

lemma capture_resample_step_wri:
  assumes "conv_status (c (period_frames s)) = noErr"
  shows "wri_offs_frames (snd (capture_resample_step c s)) =
           (wri_offs_frames s + conv_out_frames (c (period_frames s))) mod bufsize_frames s"
  using assms
  by (simp add: capture_resample_step_def AudioConverterFillComplexBuffer_def Let_def
      feed_all_resamp_update feed_all_fields)

lemma capture_resample_loop_done:
  "\<not> rp * 2 < cap_held_frames s \<Longrightarrow> capture_resample_loop conv i rp s = Some s"
  by (subst capture_resample_loop.simps) simp

lemma capture_resample_loop_next:
  "rp * 2 < cap_held_frames s \<Longrightarrow> conv_status (conv i (period_frames s)) = noErr \<Longrightarrow>
   capture_resample_loop conv i rp s =
     capture_resample_loop conv (Suc i) rp (snd (capture_resample_step (conv i) s))"
  by (subst capture_resample_loop.simps) (simp add: capture_resample_step_status)

lemma capture_resample_loop_break:
  "rp * 2 < cap_held_frames s \<Longrightarrow> conv_status (conv i (period_frames s)) \<noteq> noErr \<Longrightarrow>
   capture_resample_loop conv i rp s = Some (snd (capture_resample_step (conv i) s))"
  by (subst capture_resample_loop.simps) (simp add: capture_resample_step_status)

text \<open>
  The loop returns when every call of the converter that succeeds has pulled a frame:
  the raw ring then holds less after each turn.
\<close>

lemma capture_resample_loop_returns:
  assumes pulls: "\<forall>j. conv_status (conv j p) = noErr \<longrightarrow> (\<exists>n \<in> set (conv_pulls (conv j p)). n \<noteq> 0)"
    and p: "period_frames s = p"
  shows "\<exists>s'. capture_resample_loop conv i rp s = Some s'"
  using p
proof (induction "unat (cap_held_frames s)" arbitrary: s i rule: less_induct)
  case less
  show ?case
  proof (cases "rp * 2 < cap_held_frames s")
    case False
    then show ?thesis by (simp add: capture_resample_loop_done)
  next
    case guard: True
    show ?thesis
    proof (cases "conv_status (conv i (period_frames s)) = noErr")
      case False
      with guard show ?thesis by (simp add: capture_resample_loop_break)
    next
      case True
      let ?s1 = "snd (capture_resample_step (conv i) s)"
      have "cap_held_frames s \<noteq> 0" using guard by auto
      moreover have "\<exists>n \<in> set (conv_pulls (conv i (period_frames s))). n \<noteq> 0"
        using pulls True less.prems by simp
      ultimately have "unat (cap_held_frames ?s1) < unat (cap_held_frames s)"
        by (simp add: capture_resample_step_cap_held feed_all_less)
      moreover have "period_frames ?s1 = p"
        using less.prems by (simp add: capture_resample_step_period)
      ultimately have "\<exists>s'. capture_resample_loop conv (Suc i) rp ?s1 = Some s'"
        by (rule less.hyps)
      then show ?thesis using guard True by (simp add: capture_resample_loop_next)
    qed
  qed
qed

lemma guard_nat:
  "unat (rp :: 32 word) < 2147483648 \<Longrightarrow> (rp * 2 < h \<longleftrightarrow> 2 * unat rp < unat h)"
  by (simp add: word_less_nat_alt unat_mult_32 mult.commute)

text \<open>What a turn that succeeds does to the client ring, field by field.\<close>

lemma capture_resample_step_held:
  assumes "conv_status (c (period_frames s)) = noErr"
  shows "held_frames (snd (capture_resample_step c s)) =
           (if bufsize_frames s < held_frames s + conv_out_frames (c (period_frames s))
            then bufsize_frames s
            else held_frames s + conv_out_frames (c (period_frames s)))"
  using assms
  by (simp add: capture_resample_step_def AudioConverterFillComplexBuffer_def Let_def
      feed_all_resamp_update feed_all_fields)

lemma capture_resample_step_lcl:
  assumes "conv_status (c (period_frames s)) = noErr"
  shows "lcl_offs_frames (snd (capture_resample_step c s)) =
           (if bufsize_frames s < held_frames s + conv_out_frames (c (period_frames s))
            then lcl_offs_frames s +
                 buf_ptr_diff (lcl_offs_frames s)
                   ((wri_offs_frames s + conv_out_frames (c (period_frames s))) mod bufsize_frames s)
                   (bufsize_frames s)
            else lcl_offs_frames s)"
  using assms
  by (simp add: capture_resample_step_def AudioConverterFillComplexBuffer_def Let_def
      feed_all_resamp_update feed_all_fields)

lemma capture_resample_step_resamp:
  "take (length (conv_out_data (c (period_frames s))))
     (resamp_buffer (snd (capture_resample_step c s))) = conv_out_data (c (period_frames s))"
  by (simp add: capture_resample_step_def AudioConverterFillComplexBuffer_def Let_def
      memcpy_def)

lemma capture_resample_step_local:
  assumes "conv_status (c (period_frames s)) = noErr"
  shows "local_buffer (snd (capture_resample_step c s)) =
           ca_wrap_buffer (local_buffer s) (wri_offs_frames s * block_align s)
             (bufsize_frames s * block_align s)
             (resamp_buffer (snd (capture_resample_step c s)))
             (conv_out_frames (c (period_frames s)) * block_align s)"
  using assms
  by (simp add: capture_resample_step_def AudioConverterFillComplexBuffer_def Let_def
      feed_all_resamp_update feed_all_fields block_align_def)

text \<open>
  On a stream that satisfies the ring invariants, the frames the converter delivered
  can be read back from the old write offset, around the end of the ring, and the held
  count grows by them up to the capacity.
\<close>

lemma capture_resample_step_data:
  assumes st: "conv_status (c (period_frames s)) = noErr"
    and ok: "stream_ok s" and bok: "buffer_ok s"
    and room: "unat (conv_out_frames (c (period_frames s))) \<le> unat (bufsize_frames s)"
    and whole: "length (conv_out_data (c (period_frames s))) =
        unat (conv_out_frames (c (period_frames s))) * unat (block_align s)"
  shows "length (local_buffer (snd (capture_resample_step c s))) = length (local_buffer s)"
    and "ring_read (local_buffer (snd (capture_resample_step c s)))
           (unat (wri_offs_frames s) * unat (block_align s))
           (unat (conv_out_frames (c (period_frames s))) * unat (block_align s)) =
         conv_out_data (c (period_frames s))"
proof -
  let ?n = "conv_out_frames (c (period_frames s))"
  let ?data = "conv_out_data (c (period_frames s))"
  let ?s' = "snd (capture_resample_step c s)"
  have wle: "unat (wri_offs_frames s) \<le> unat (bufsize_frames s)"
    using stream_ok_bounds(3) [OF ok] by simp
  note pw = buffer_ok_products [OF bok wle]
  note pf = buffer_ok_products [OF bok room]
  have len: "length (local_buffer s) = unat (bufsize_frames s * block_align s)"
    using buffer_ok_products(3) [OF bok order_refl] by simp
  have offs: "wri_offs_frames s * block_align s \<le> bufsize_frames s * block_align s"
    using pw by (simp add: word_le_nat_alt)
  have fits: "?n * block_align s \<le> bufsize_frames s * block_align s"
    using pf by (simp add: word_le_nat_alt)
  have t: "take (unat (?n * block_align s)) (resamp_buffer ?s') = ?data"
    using capture_resample_step_resamp [of c s] whole pf(1) by simp
  have "length (take (unat (?n * block_align s)) (resamp_buffer ?s')) = unat (?n * block_align s)"
    unfolding t using whole pf(1) by simp
  then have src: "unat (?n * block_align s) \<le> length (resamp_buffer ?s')"
    by simp
  note r = ca_wrap_buffer_read [OF len offs src fits]
  show "length (local_buffer ?s') = length (local_buffer s)"
    using r(1) capture_resample_step_local [of c s, OF st] by simp
  show "ring_read (local_buffer ?s') (unat (wri_offs_frames s) * unat (block_align s))
      (unat ?n * unat (block_align s)) = ?data"
    using r(2) capture_resample_step_local [of c s, OF st] t pw(1) pf(1) by simp
qed

lemma capture_resample_step_held_nat:
  assumes st: "conv_status (c (period_frames s)) = noErr"
    and ok: "stream_ok s"
    and room: "unat (conv_out_frames (c (period_frames s))) \<le> unat (bufsize_frames s)"
  shows "unat (held_frames (snd (capture_resample_step c s))) =
           min (unat (held_frames s) + unat (conv_out_frames (c (period_frames s))))
             (unat (bufsize_frames s))"
proof -
  let ?n = "conv_out_frames (c (period_frames s))"
  have "unat (held_frames s) + unat ?n < 4294967296"
    using stream_ok_bounds(1,4) [OF ok] room by simp
  then have sum: "unat (held_frames s + ?n) = unat (held_frames s) + unat ?n"
    by (rule unat_add_32)
  show ?thesis
    using sum by (simp add: capture_resample_step_held [of c s, OF st] word_less_nat_alt)
qed

text \<open>
  The loop does not return when no call of the converter asks \<^verbatim>\<open>feed_cb\<close> for a frame
  and none fails: the raw ring holds after each turn what it held before.
\<close>

lemma feed_all_none:
  "\<forall>n \<in> set ns. n = 0 \<Longrightarrow> feed_all ns s = s"
  by (induction ns arbitrary: s) (simp_all add: feed_cb_def)

lemma capture_resample_loop_stalls:
  assumes idle: "\<forall>j. conv_status (conv j p) = noErr \<and> (\<forall>n \<in> set (conv_pulls (conv j p)). n = 0)"
    and p: "period_frames s = p"
    and guard: "rp * 2 < cap_held_frames s"
  shows "capture_resample_loop conv i rp s = None"
proof (cases "capture_resample_loop conv i rp s")
  case None
  then show ?thesis .
next
  case (Some s')
  let ?Q = "\<lambda>cv rq t. cv = conv \<and> period_frames t = p \<and> rq * 2 < cap_held_frames t"
  have "\<not> ?Q conv rp s"
  proof (rule capture_resample_loop.raw_induct
      [where P = "\<lambda>cv i rq t t'. \<not> (cv = conv \<and> period_frames t = p \<and> rq * 2 < cap_held_frames t)",
        OF _ Some])
    fix loop :: "(nat \<Rightarrow> converter) \<Rightarrow> nat \<Rightarrow> UINT32 \<Rightarrow> coreaudio_stream \<Rightarrow> coreaudio_stream option"
    fix cv i rq t t'
    assume ih: "\<And>cv i rq t t'. loop cv i rq t = Some t' \<Longrightarrow>
        \<not> (cv = conv \<and> period_frames t = p \<and> rq * 2 < cap_held_frames t)"
    assume eq: "(if rq * 2 < cap_held_frames t
                 then if fst (capture_resample_step (cv i) t) \<noteq> noErr
                      then Some (snd (capture_resample_step (cv i) t))
                      else loop cv (Suc i) rq (snd (capture_resample_step (cv i) t))
                 else Some t) = Some t'"
    show "\<not> (cv = conv \<and> period_frames t = p \<and> rq * 2 < cap_held_frames t)"
    proof
      assume q: "cv = conv \<and> period_frames t = p \<and> rq * 2 < cap_held_frames t"
      let ?t1 = "snd (capture_resample_step (cv i) t)"
      have st: "fst (capture_resample_step (cv i) t) = noErr"
        using q idle by (simp add: capture_resample_step_status)
      have "feed_all (conv_pulls (cv i (period_frames t))) t = t"
        using q idle by (intro feed_all_none) simp
      then have held: "cap_held_frames ?t1 = cap_held_frames t"
        by (simp add: capture_resample_step_cap_held)
      have per: "period_frames ?t1 = p"
        using q by (simp add: capture_resample_step_period)
      from eq q st have "loop cv (Suc i) rq ?t1 = Some t'" by simp
      then have "\<not> (cv = conv \<and> period_frames ?t1 = p \<and> rq * 2 < cap_held_frames ?t1)"
        by (rule ih)
      with q held per show False by simp
    qed
  qed
  with p guard show ?thesis by simp
qed

text \<open>What a turn, and one call of \<^verbatim>\<open>feed_cb\<close>, do to the raw ring.\<close>

lemma capture_resample_step_cap_offs:
  "cap_offs_frames (snd (capture_resample_step c s)) =
     cap_offs_frames (feed_all (conv_pulls (c (period_frames s))) s)"
  by (simp add: capture_resample_step_def AudioConverterFillComplexBuffer_def Let_def
      feed_all_resamp_update)

lemma feed_cb_served:
  "fst (feed_cb k s) = min k (cap_held_frames s)"
  "cap_offs_frames (snd (feed_cb k s)) =
     (if min k (cap_held_frames s) = 0 then cap_offs_frames s
      else (cap_offs_frames s + min k (cap_held_frames s)) mod cap_bufsize_frames s)"
  by (simp_all add: feed_cb_def Let_def)

text \<open>
  Claim C7, amended. \<^verbatim>\<open>capture_resample\<close> runs its loop with
  \<open>rp = muldiv period_frames dev_desc.mSampleRate nSamplesPerSec\<close>, which on rates and a
  period in the range of a positive \<^verbatim>\<open>int\<close> is the quotient
  \<open>period_frames * mSampleRate / nSamplesPerSec\<close> rounded to the nearest integer. The loop
  holds the stream as it is once the raw ring holds no more than \<open>2 * rp\<close> frames.
  While it holds more, one turn asks the converter for \<open>period_frames\<close> frames. When
  the converter succeeds and delivers \<open>n\<close> frames the loop goes on, the raw ring
  holding no more than before the turn, and the client ring has taken the chunk: the
  ring is the old one with the first \<open>n\<close> frames of the resampling buffer, which are the
  converter's output, wrap-copied to the old write offset; the write offset has
  advanced by \<open>n\<close> modulo the capacity; the held count has grown by \<open>n\<close>, or is the
  capacity where the sum exceeds it, and the read offset then moves by the distance
  \<^verbatim>\<open>buf_ptr_diff\<close> to the new write offset. On a stream that satisfies the ring
  invariants the chunk can be read back from the old write offset around the end of
  the ring, and the held count is the smaller of the sum and the capacity. When the
  converter fails the loop stops at once with the client ring as the turns before left
  it. The drain returns whenever every successful call of the converter pulls at least
  one frame through \<^verbatim>\<open>feed_cb\<close>, since the raw ring then holds less after each turn; it
  does not return when the raw ring holds more than \<open>2 * rp\<close> frames and every call of
  the converter succeeds without pulling a frame. Whatever the converter returns, the
  raw ring after a turn is what its calls of \<^verbatim>\<open>feed_cb\<close> leave, and never holds more than
  before: a call of \<^verbatim>\<open>feed_cb\<close> for \<open>k\<close> frames serves the smaller of \<open>k\<close> and the held
  count, takes it off the held count and advances the offset by it modulo the capacity
  of the raw ring.
\<close>

theorem capture_resample_spec:
  "(unat (period_frames s) < 2 ^ 31 \<and> unat (dev_desc_mSampleRate s) < 2 ^ 31 \<and>
    0 < unat (nSamplesPerSec (fmt s)) \<and> unat (nSamplesPerSec (fmt s)) < 2 ^ 31 \<and>
    (unat (period_frames s) * unat (dev_desc_mSampleRate s) + unat (nSamplesPerSec (fmt s)) div 2) div
      unat (nSamplesPerSec (fmt s)) < 2 ^ 31 \<and>
    rp = muldiv (period_frames s) (dev_desc_mSampleRate s) (nSamplesPerSec (fmt s)) \<longrightarrow>
      capture_resample conv s = capture_resample_loop conv 0 rp s \<and>
      unat rp =
        (unat (period_frames s) * unat (dev_desc_mSampleRate s) + unat (nSamplesPerSec (fmt s)) div 2) div
          unat (nSamplesPerSec (fmt s)) \<and>
      2 * (unat rp * unat (nSamplesPerSec (fmt s))) \<le>
        2 * (unat (period_frames s) * unat (dev_desc_mSampleRate s)) + unat (nSamplesPerSec (fmt s)) \<and>
      2 * (unat (period_frames s) * unat (dev_desc_mSampleRate s)) <
        2 * (unat rp * unat (nSamplesPerSec (fmt s))) + unat (nSamplesPerSec (fmt s))) \<and>
   (unat rp < 2 ^ 31 \<longrightarrow> (rp * 2 < cap_held_frames s \<longleftrightarrow> 2 * unat rp < unat (cap_held_frames s))) \<and>
   (\<not> rp * 2 < cap_held_frames s \<longrightarrow> capture_resample_loop conv i rp s = Some s) \<and>
   (rp * 2 < cap_held_frames s \<and> conv_status (conv i (period_frames s)) = noErr \<longrightarrow>
      capture_resample_loop conv i rp s =
        capture_resample_loop conv (Suc i) rp (snd (capture_resample_step (conv i) s)) \<and>
      unat (cap_held_frames (snd (capture_resample_step (conv i) s))) \<le> unat (cap_held_frames s)) \<and>
   (conv_status (conv i (period_frames s)) = noErr \<and>
    n = conv_out_frames (conv i (period_frames s)) \<and>
    s1 = snd (capture_resample_step (conv i) s) \<longrightarrow>
      take (length (conv_out_data (conv i (period_frames s)))) (resamp_buffer s1) =
        conv_out_data (conv i (period_frames s)) \<and>
      local_buffer s1 =
        ca_wrap_buffer (local_buffer s) (wri_offs_frames s * block_align s)
          (bufsize_frames s * block_align s) (resamp_buffer s1) (n * block_align s) \<and>
      wri_offs_frames s1 = (wri_offs_frames s + n) mod bufsize_frames s \<and>
      held_frames s1 =
        (if bufsize_frames s < held_frames s + n then bufsize_frames s else held_frames s + n) \<and>
      lcl_offs_frames s1 =
        (if bufsize_frames s < held_frames s + n
         then lcl_offs_frames s +
              buf_ptr_diff (lcl_offs_frames s) ((wri_offs_frames s + n) mod bufsize_frames s)
                (bufsize_frames s)
         else lcl_offs_frames s)) \<and>
   (conv_status (conv i (period_frames s)) = noErr \<and>
    n = conv_out_frames (conv i (period_frames s)) \<and>
    s1 = snd (capture_resample_step (conv i) s) \<and>
    stream_ok s \<and> buffer_ok s \<and> unat n \<le> unat (bufsize_frames s) \<and>
    length (conv_out_data (conv i (period_frames s))) = unat n * unat (block_align s) \<longrightarrow>
      length (local_buffer s1) = length (local_buffer s) \<and>
      ring_read (local_buffer s1) (unat (wri_offs_frames s) * unat (block_align s))
        (unat n * unat (block_align s)) = conv_out_data (conv i (period_frames s)) \<and>
      unat (held_frames s1) = min (unat (held_frames s) + unat n) (unat (bufsize_frames s))) \<and>
   (rp * 2 < cap_held_frames s \<and> conv_status (conv i (period_frames s)) \<noteq> noErr \<longrightarrow>
      capture_resample_loop conv i rp s = Some (snd (capture_resample_step (conv i) s)) \<and>
      client_ring (snd (capture_resample_step (conv i) s)) = client_ring s) \<and>
   ((\<forall>j. conv_status (conv j (period_frames s)) = noErr \<longrightarrow>
          (\<exists>k \<in> set (conv_pulls (conv j (period_frames s))). k \<noteq> 0)) \<longrightarrow>
      (\<exists>s'. capture_resample conv s = Some s')) \<and>
   ((\<forall>j. conv_status (conv j (period_frames s)) = noErr \<and>
          (\<forall>k \<in> set (conv_pulls (conv j (period_frames s))). k = 0)) \<and>
    muldiv (period_frames s) (dev_desc_mSampleRate s) (nSamplesPerSec (fmt s)) * 2 <
      cap_held_frames s \<longrightarrow>
      capture_resample conv s = None) \<and>
   (unat (cap_held_frames (snd (capture_resample_step (conv i) s))) \<le> unat (cap_held_frames s) \<and>
    cap_held_frames (snd (capture_resample_step (conv i) s)) =
      cap_held_frames (feed_all (conv_pulls (conv i (period_frames s))) s) \<and>
    cap_offs_frames (snd (capture_resample_step (conv i) s)) =
      cap_offs_frames (feed_all (conv_pulls (conv i (period_frames s))) s) \<and>
    fst (feed_cb k s) = min k (cap_held_frames s) \<and>
    cap_held_frames (snd (feed_cb k s)) = cap_held_frames s - min k (cap_held_frames s) \<and>
    cap_offs_frames (snd (feed_cb k s)) =
      (if min k (cap_held_frames s) = 0 then cap_offs_frames s
       else (cap_offs_frames s + min k (cap_held_frames s)) mod cap_bufsize_frames s))"
proof -
  let ?P = "unat (period_frames s)" and ?R = "unat (dev_desc_mSampleRate s)"
    and ?C = "unat (nSamplesPerSec (fmt s))"
  let ?c = "conv i" and ?step = "snd (capture_resample_step (conv i) s)"
  have p: "2 ^ 31 = (2147483648 :: nat)" by simp
  have rounding:
    "capture_resample conv s = capture_resample_loop conv 0 rp s \<and>
     unat rp = (?P * ?R + ?C div 2) div ?C \<and>
     2 * (unat rp * ?C) \<le> 2 * (?P * ?R) + ?C \<and>
     2 * (?P * ?R) < 2 * (unat rp * ?C) + ?C"
    if h: "?P < 2147483648" "?R < 2147483648" "0 < ?C" "?C < 2147483648"
      "(?P * ?R + ?C div 2) div ?C < 2147483648"
      and rp: "rp = muldiv (period_frames s) (dev_desc_mSampleRate s) (nSamplesPerSec (fmt s))"
  proof -
    have u: "unat rp = (?P * ?R + ?C div 2) div ?C"
      unfolding rp using h by (rule muldiv_nat)
    show ?thesis
      using round_nearest [OF h(3), of "?P * ?R"] u rp by (simp add: capture_resample_def)
  qed
  have c1: "unat (period_frames s) < 2 ^ 31 \<and> unat (dev_desc_mSampleRate s) < 2 ^ 31 \<and>
    0 < unat (nSamplesPerSec (fmt s)) \<and> unat (nSamplesPerSec (fmt s)) < 2 ^ 31 \<and>
    (unat (period_frames s) * unat (dev_desc_mSampleRate s) + unat (nSamplesPerSec (fmt s)) div 2) div
      unat (nSamplesPerSec (fmt s)) < 2 ^ 31 \<and>
    rp = muldiv (period_frames s) (dev_desc_mSampleRate s) (nSamplesPerSec (fmt s)) \<longrightarrow>
      capture_resample conv s = capture_resample_loop conv 0 rp s \<and>
      unat rp = (?P * ?R + ?C div 2) div ?C \<and>
      2 * (unat rp * ?C) \<le> 2 * (?P * ?R) + ?C \<and>
      2 * (?P * ?R) < 2 * (unat rp * ?C) + ?C"
    unfolding p using rounding by blast
  have c2: "unat rp < 2 ^ 31 \<longrightarrow>
      (rp * 2 < cap_held_frames s \<longleftrightarrow> 2 * unat rp < unat (cap_held_frames s))"
    unfolding p using guard_nat [of rp "cap_held_frames s"] by blast
  have c3: "\<not> rp * 2 < cap_held_frames s \<longrightarrow> capture_resample_loop conv i rp s = Some s"
    using capture_resample_loop_done [of rp s conv i] by blast
  have le: "unat (cap_held_frames ?step) \<le> unat (cap_held_frames s)"
    by (simp add: capture_resample_step_cap_held feed_all_le)
  have c4: "rp * 2 < cap_held_frames s \<and> conv_status (conv i (period_frames s)) = noErr \<longrightarrow>
      capture_resample_loop conv i rp s = capture_resample_loop conv (Suc i) rp ?step \<and>
      unat (cap_held_frames ?step) \<le> unat (cap_held_frames s)"
    using capture_resample_loop_next [of rp s conv i] le by blast
  have c5: "conv_status (conv i (period_frames s)) = noErr \<and>
    n = conv_out_frames (conv i (period_frames s)) \<and> s1 = ?step \<longrightarrow>
      take (length (conv_out_data (conv i (period_frames s)))) (resamp_buffer s1) =
        conv_out_data (conv i (period_frames s)) \<and>
      local_buffer s1 =
        ca_wrap_buffer (local_buffer s) (wri_offs_frames s * block_align s)
          (bufsize_frames s * block_align s) (resamp_buffer s1) (n * block_align s) \<and>
      wri_offs_frames s1 = (wri_offs_frames s + n) mod bufsize_frames s \<and>
      held_frames s1 =
        (if bufsize_frames s < held_frames s + n then bufsize_frames s else held_frames s + n) \<and>
      lcl_offs_frames s1 =
        (if bufsize_frames s < held_frames s + n
         then lcl_offs_frames s +
              buf_ptr_diff (lcl_offs_frames s) ((wri_offs_frames s + n) mod bufsize_frames s)
                (bufsize_frames s)
         else lcl_offs_frames s)"
    using capture_resample_step_resamp [of ?c s] capture_resample_step_local [of ?c s]
      capture_resample_step_wri [of ?c s] capture_resample_step_held [of ?c s]
      capture_resample_step_lcl [of ?c s]
    by blast
  have c6: "conv_status (conv i (period_frames s)) = noErr \<and>
    n = conv_out_frames (conv i (period_frames s)) \<and> s1 = ?step \<and>
    stream_ok s \<and> buffer_ok s \<and> unat n \<le> unat (bufsize_frames s) \<and>
    length (conv_out_data (conv i (period_frames s))) = unat n * unat (block_align s) \<longrightarrow>
      length (local_buffer s1) = length (local_buffer s) \<and>
      ring_read (local_buffer s1) (unat (wri_offs_frames s) * unat (block_align s))
        (unat n * unat (block_align s)) = conv_out_data (conv i (period_frames s)) \<and>
      unat (held_frames s1) = min (unat (held_frames s) + unat n) (unat (bufsize_frames s))"
    using capture_resample_step_data [of ?c s] capture_resample_step_held_nat [of ?c s]
    by blast
  have c7: "rp * 2 < cap_held_frames s \<and> conv_status (conv i (period_frames s)) \<noteq> noErr \<longrightarrow>
      capture_resample_loop conv i rp s = Some ?step \<and> client_ring ?step = client_ring s"
    using capture_resample_loop_break [of rp s conv i] capture_resample_step_failed [of ?c s]
    by blast
  have returns: "\<exists>s'. capture_resample conv s = Some s'"
    if "\<forall>j. conv_status (conv j (period_frames s)) = noErr \<longrightarrow>
          (\<exists>k \<in> set (conv_pulls (conv j (period_frames s))). k \<noteq> 0)"
    unfolding capture_resample_def
    using that by (rule capture_resample_loop_returns) simp
  then have c8: "(\<forall>j. conv_status (conv j (period_frames s)) = noErr \<longrightarrow>
          (\<exists>k \<in> set (conv_pulls (conv j (period_frames s))). k \<noteq> 0)) \<longrightarrow>
      (\<exists>s'. capture_resample conv s = Some s')"
    by blast
  have stalls: "capture_resample conv s = None"
    if "\<forall>j. conv_status (conv j (period_frames s)) = noErr \<and>
          (\<forall>k \<in> set (conv_pulls (conv j (period_frames s))). k = 0)"
      and "muldiv (period_frames s) (dev_desc_mSampleRate s) (nSamplesPerSec (fmt s)) * 2 <
        cap_held_frames s"
    unfolding capture_resample_def
    using that(1) _ that(2) by (rule capture_resample_loop_stalls) simp
  then have c9: "(\<forall>j. conv_status (conv j (period_frames s)) = noErr \<and>
          (\<forall>k \<in> set (conv_pulls (conv j (period_frames s))). k = 0)) \<and>
    muldiv (period_frames s) (dev_desc_mSampleRate s) (nSamplesPerSec (fmt s)) * 2 <
      cap_held_frames s \<longrightarrow>
      capture_resample conv s = None"
    by blast
  have c10: "unat (cap_held_frames ?step) \<le> unat (cap_held_frames s) \<and>
    cap_held_frames ?step = cap_held_frames (feed_all (conv_pulls (conv i (period_frames s))) s) \<and>
    cap_offs_frames ?step = cap_offs_frames (feed_all (conv_pulls (conv i (period_frames s))) s) \<and>
    fst (feed_cb k s) = min k (cap_held_frames s) \<and>
    cap_held_frames (snd (feed_cb k s)) = cap_held_frames s - min k (cap_held_frames s) \<and>
    cap_offs_frames (snd (feed_cb k s)) =
      (if min k (cap_held_frames s) = 0 then cap_offs_frames s
       else (cap_offs_frames s + min k (cap_held_frames s)) mod cap_bufsize_frames s)"
    using le capture_resample_step_cap_held [of ?c s] capture_resample_step_cap_offs [of ?c s]
      feed_cb_served [of k s] feed_cb_cap_held [of k s]
    by (intro conjI)
  note c10 = c10 [THEN conjunct1] c10 [THEN conjunct2, THEN conjunct1]
    c10 [THEN conjunct2, THEN conjunct2, THEN conjunct1]
    c10 [THEN conjunct2, THEN conjunct2, THEN conjunct2, THEN conjunct1]
    c10 [THEN conjunct2, THEN conjunct2, THEN conjunct2, THEN conjunct2, THEN conjunct1]
    c10 [THEN conjunct2, THEN conjunct2, THEN conjunct2, THEN conjunct2, THEN conjunct2]
  from c1 c2 c3 c4 c5 c6 c7 c8 c9 c10 show ?thesis by (intro conjI)
qed

lemma drain_example: "capture_resample steady capture_stream = Some drained_stream"
  by code_simp

lemma muldiv_example: "muldiv 4 48000 48000 = 4"
  by code_simp

theorem capture_resample_spec_witness:
  "unat (muldiv 4 48000 48000) = (4 * 48000 + 48000 div 2) div 48000 \<and>
   (\<exists>s'. capture_resample steady capture_stream = Some s') \<and>
   capture_resample_loop steady 0 4 (capture_stream\<lparr>cap_held_frames := 8\<rparr>) =
     Some (capture_stream\<lparr>cap_held_frames := 8\<rparr>) \<and>
   capture_resample_loop steady 0 4 capture_stream =
     capture_resample_loop steady 1 4 (snd (capture_resample_step (steady 0) capture_stream)) \<and>
   wri_offs_frames (snd (capture_resample_step (steady 0) filled_capture_stream)) = 4 \<and>
   held_frames (snd (capture_resample_step (steady 0) filled_capture_stream)) = 8 \<and>
   lcl_offs_frames (snd (capture_resample_step (steady 0) filled_capture_stream)) = 4 \<and>
   wri_offs_frames
     (snd (capture_resample_step (steady 0)
        (capture_stream\<lparr>lcl_offs_frames := 6, held_frames := 0, wri_offs_frames := 6\<rparr>))) = 2 \<and>
   lcl_offs_frames
     (snd (capture_resample_step (steady 0)
        (capture_stream\<lparr>lcl_offs_frames := 6, held_frames := 0, wri_offs_frames := 6\<rparr>))) = 6 \<and>
   unat (held_frames
     (snd (capture_resample_step (steady 0)
        (capture_stream\<lparr>lcl_offs_frames := 6, held_frames := 0, wri_offs_frames := 6\<rparr>)))) = 4 \<and>
   ring_read
     (local_buffer
        (snd (capture_resample_step (steady 0)
           (capture_stream\<lparr>lcl_offs_frames := 6, held_frames := 0, wri_offs_frames := 6\<rparr>))))
     12 8 = replicate 8 21 \<and>
   capture_resample_loop failing 0 4 capture_stream =
     Some (snd (capture_resample_step (failing 0) capture_stream)) \<and>
   client_ring (snd (capture_resample_step (failing 0) capture_stream)) = client_ring capture_stream \<and>
   capture_resample stalled capture_stream = None \<and>
   fst (feed_cb 4 capture_stream) = 4 \<and>
   cap_held_frames (snd (feed_cb 4 capture_stream)) = 12 \<and>
   cap_offs_frames (snd (feed_cb 4 capture_stream)) = 4"
proof -
  let ?e = "capture_stream\<lparr>lcl_offs_frames := 6, held_frames := 0, wri_offs_frames := 6\<rparr>"
  let ?e1 = "snd (capture_resample_step (steady 0) ?e)"
  let ?f1 = "snd (capture_resample_step (steady 0) filled_capture_stream)"
  have f: "period_frames capture_stream = 4" "dev_desc_mSampleRate capture_stream = 48000"
    "nSamplesPerSec (fmt capture_stream) = 48000" "cap_held_frames capture_stream = 16"
    by (simp_all add: capture_stream_def pcm16_mono_def)
  have st: "conv_status (steady j 4) = noErr" "conv_pulls (steady j 4) = [4]"
    "conv_out_frames (steady j 4) = 4" "conv_out_data (steady j 4) = replicate 8 21"
    "conv_status (failing j 4) \<noteq> noErr"
    "conv_status (stalled j 4) = noErr" "conv_pulls (stalled j 4) = []" for j
    by (simp_all add: steady_def failing_def stalled_def convert_1to1_def convert_failing_def
        convert_no_input_def)
  have a: "unat (muldiv 4 48000 48000) = (4 * 48000 + 48000 div 2) div 48000"
    using capture_resample_spec [of capture_stream 4 steady 0] f muldiv_example by simp
  have b: "\<exists>s'. capture_resample steady capture_stream = Some s'"
    using capture_resample_spec [of capture_stream 4 steady 0] f st by simp
  have c: "capture_resample_loop steady 0 4 (capture_stream\<lparr>cap_held_frames := 8\<rparr>) =
      Some (capture_stream\<lparr>cap_held_frames := 8\<rparr>)"
    using capture_resample_spec [of "capture_stream\<lparr>cap_held_frames := 8\<rparr>" 4 steady 0]
    by simp
  have d: "capture_resample_loop steady 0 4 capture_stream =
      capture_resample_loop steady 1 4 (snd (capture_resample_step (steady 0) capture_stream))"
    using capture_resample_spec [of capture_stream 4 steady 0] f st by simp
  have ff: "period_frames filled_capture_stream = 4" "bufsize_frames filled_capture_stream = 8"
    "held_frames filled_capture_stream = 8" "lcl_offs_frames filled_capture_stream = 0"
    "wri_offs_frames filled_capture_stream = 0"
    by (simp_all add: filled_capture_stream_def empty_capture_stream_def capture_stream_def)
  have g: "wri_offs_frames ?f1 = 4 \<and> held_frames ?f1 = 8 \<and> lcl_offs_frames ?f1 = 4"
    using capture_resample_spec
      [where s = filled_capture_stream and conv = steady and i = 0 and n = 4 and ?s1.0 = ?f1
        and rp = 4, THEN conjunct2, THEN conjunct2, THEN conjunct2, THEN conjunct2, THEN conjunct1]
      ff st
    by (simp add: buf_ptr_diff_def)
  have fe: "period_frames ?e = 4" "bufsize_frames ?e = 8" "held_frames ?e = 0"
    "lcl_offs_frames ?e = 6" "wri_offs_frames ?e = 6" "block_align ?e = 2"
    "stream_ok ?e" "buffer_ok ?e"
    by (simp_all add: capture_stream_def block_align_def pcm16_mono_def stream_ok_def
        ring_inv_def buffer_ok_def)
  have h1: "wri_offs_frames ?e1 = 2 \<and> lcl_offs_frames ?e1 = 6"
    using capture_resample_spec
      [where s = ?e and conv = steady and i = 0 and n = 4 and ?s1.0 = ?e1 and rp = 4,
        THEN conjunct2, THEN conjunct2, THEN conjunct2, THEN conjunct2, THEN conjunct1]
      fe st
    by simp
  have h2: "unat (held_frames ?e1) = 4 \<and> ring_read (local_buffer ?e1) 12 8 = replicate 8 21"
    using capture_resample_spec
      [where s = ?e and conv = steady and i = 0 and n = 4 and ?s1.0 = ?e1 and rp = 4,
        THEN conjunct2, THEN conjunct2, THEN conjunct2, THEN conjunct2, THEN conjunct2, THEN conjunct1]
      fe st
    by simp
  have e: "capture_resample_loop failing 0 4 capture_stream =
      Some (snd (capture_resample_step (failing 0) capture_stream)) \<and>
    client_ring (snd (capture_resample_step (failing 0) capture_stream)) = client_ring capture_stream"
    using capture_resample_spec [of capture_stream 4 failing 0] f st by simp
  have k: "capture_resample stalled capture_stream = None"
    using capture_resample_spec
      [where s = capture_stream and conv = stalled and rp = 4 and i = 0 and n = 4
        and ?s1.0 = capture_stream,
        THEN conjunct2, THEN conjunct2, THEN conjunct2, THEN conjunct2, THEN conjunct2, THEN conjunct2, THEN conjunct2, THEN conjunct2, THEN conjunct1]
      f st muldiv_example
    by simp
  have m: "fst (feed_cb 4 capture_stream) = 4 \<and>
      cap_held_frames (snd (feed_cb 4 capture_stream)) = 12 \<and>
      cap_offs_frames (snd (feed_cb 4 capture_stream)) = 4"
    using capture_resample_spec
      [where s = capture_stream and conv = steady and i = 0 and k = 4,
        THEN conjunct2, THEN conjunct2, THEN conjunct2, THEN conjunct2, THEN conjunct2, THEN conjunct2, THEN conjunct2, THEN conjunct2, THEN conjunct2]
    by (simp add: capture_stream_def)
  from a b c d g h1 h2 e k m show ?thesis by simp
qed

text \<open>
  Claim C7 as stated fails on a converter that delivers its periods without pulling
  input: no turn consumes raw input, the raw ring of the capture stream holds 16 frames
  against a threshold of 8 before and after every turn, and the drain does not return.
\<close>

theorem capture_resample_never_returns:
  "(\<forall>j. conv_status (stalled j 4) = noErr \<and> conv_pulls (stalled j 4) = []) \<and>
   period_frames capture_stream = 4 \<and> cap_held_frames capture_stream = 16 \<and>
   muldiv 4 48000 48000 = 4 \<and>
   capture_resample stalled capture_stream = None"
proof -
  have st: "\<forall>j. conv_status (stalled j 4) = noErr \<and> conv_pulls (stalled j 4) = []"
    by (simp add: stalled_def convert_no_input_def)
  have f: "period_frames capture_stream = 4" "dev_desc_mSampleRate capture_stream = 48000"
    "nSamplesPerSec (fmt capture_stream) = 48000" "cap_held_frames capture_stream = 16"
    by (simp_all add: capture_stream_def pcm16_mono_def)
  have idle: "\<forall>j. conv_status (stalled j 4) = noErr \<and>
      (\<forall>k \<in> set (conv_pulls (stalled j 4)). k = 0)"
    using st by simp
  have "capture_resample_loop stalled 0 4 capture_stream = None"
    using idle f(1) by (rule capture_resample_loop_stalls) (simp add: f)
  then have "capture_resample stalled capture_stream = None"
    by (simp add: capture_resample_def f muldiv_example)
  with st f muldiv_example show ?thesis by simp
qed

section \<open>What the drain keeps, and what it breaks\<close>

text \<open>What every turn of the loop keeps, the drain keeps.\<close>

lemma capture_resample_loop_keeps:
  assumes run: "capture_resample_loop conv i rp s = Some s'"
    and start: "P s"
    and step: "\<And>c t. P t \<Longrightarrow> P (snd (capture_resample_step c t))"
  shows "P s'"
proof -
  have "P s \<longrightarrow> P s'"
  proof (rule capture_resample_loop.raw_induct
      [where P = "\<lambda>conv i rp t t'. P t \<longrightarrow> P t'", OF _ run])
    fix loop :: "(nat \<Rightarrow> converter) \<Rightarrow> nat \<Rightarrow> UINT32 \<Rightarrow> coreaudio_stream \<Rightarrow> coreaudio_stream option"
    fix conv i rp t t'
    assume ih: "\<And>conv i rp t t'. loop conv i rp t = Some t' \<Longrightarrow> P t \<longrightarrow> P t'"
    assume eq: "(if rp * 2 < cap_held_frames t
                 then if fst (capture_resample_step (conv i) t) \<noteq> noErr
                      then Some (snd (capture_resample_step (conv i) t))
                      else loop conv (Suc i) rp (snd (capture_resample_step (conv i) t))
                 else Some t) = Some t'"
    show "P t \<longrightarrow> P t'"
    proof (cases "rp * 2 < cap_held_frames t")
      case False
      with eq show ?thesis by simp
    next
      case guard: True
      show ?thesis
      proof (cases "fst (capture_resample_step (conv i) t) \<noteq> noErr")
        case True
        with guard eq step show ?thesis by auto
      next
        case False
        with guard eq
        have "loop conv (Suc i) rp (snd (capture_resample_step (conv i) t)) = Some t'"
          by simp
        then have "P (snd (capture_resample_step (conv i) t)) \<longrightarrow> P t'" by (rule ih)
        then show ?thesis using step by blast
      qed
    qed
  qed
  then show ?thesis using start by simp
qed

lemma capture_resample_step_getbuf_last:
  "getbuf_last (snd (capture_resample_step c s)) = getbuf_last s"
  by (simp add: capture_resample_step_def AudioConverterFillComplexBuffer_def Let_def
      feed_all_resamp_update feed_all_fields)

lemma capture_resample_getbuf_last:
  assumes "capture_resample conv s = Some s'"
  shows "getbuf_last s' = getbuf_last s"
proof -
  have "getbuf_last s' = getbuf_last s"
    using assms [unfolded capture_resample_def]
    by (rule capture_resample_loop_keeps [where P = "\<lambda>t. getbuf_last t = getbuf_last s"])
      (simp_all add: capture_resample_step_getbuf_last)
  then show ?thesis .
qed

lemma fill_example: "capture_resample steady empty_capture_stream = Some filled_capture_stream"
  by code_simp

text \<open>
  Claim C2 (fails on the overrun path of the resampler). The capture stream satisfies
  the invariants of both rings, its client ring is full and 16 raw frames wait. A drain
  through a converter that delivers whole periods leaves the read offset at 12 in a ring
  of 8 frames: \<^verbatim>\<open>capture_resample\<close> adds \<^verbatim>\<open>buf_ptr_diff\<close> to \<^verbatim>\<open>lcl_offs_frames\<close> and does not
  reduce the sum modulo \<^verbatim>\<open>bufsize_frames\<close>.
\<close>

theorem capture_resample_overrun_read_offset:
  "ring_inv capture_stream \<and> cap_ring_inv capture_stream \<and>
   capture_resample steady capture_stream = Some drained_stream \<and>
   lcl_offs_frames drained_stream = 12 \<and> bufsize_frames drained_stream = 8 \<and>
   \<not> ring_inv drained_stream"
proof -
  have "ring_inv capture_stream" "cap_ring_inv capture_stream"
    by (simp_all add: ring_inv_def cap_ring_inv_def capture_stream_def)
  moreover have "lcl_offs_frames drained_stream = 12" "bufsize_frames drained_stream = 8"
    by (simp_all add: drained_stream_def capture_stream_def)
  moreover from this have "\<not> ring_inv drained_stream"
    by (simp add: ring_inv_def)
  ultimately show ?thesis using drain_example by simp
qed

section \<open>Acquiring a render buffer\<close>

lemma get_current_padding_nolock_render:
  "flow s = eRender \<Longrightarrow> get_current_padding_nolock conv s = Some (held_frames s, s)"
  by (simp add: get_current_padding_nolock_def)

lemma get_current_padding_nolock_result:
  assumes "get_current_padding_nolock conv s = Some (pad, s1)"
  shows "pad = held_frames s1" and "getbuf_last s1 = getbuf_last s"
  using assms capture_resample_getbuf_last [of conv s]
  by (auto simp: get_current_padding_nolock_def split: if_splits option.splits)

text \<open>
  The three early exits, where the sum of the padding and the request stays below
  \<open>2 ^ 32\<close>: no pointer is stored and the stream is the one the padding query returned,
  on a render stream the stream of before the call.
\<close>

lemma get_render_buffer_after_padding:
  assumes p: "get_current_padding_nolock conv s = Some (pad, s1)"
  shows "getbuf_last s \<noteq> 0 \<Longrightarrow>
           get_render_buffer conv alloc_ok frames s = Some (AUDCLNT_E_OUT_OF_ORDER, None, s1)"
    and "getbuf_last s = 0 \<Longrightarrow> frames = 0 \<Longrightarrow>
           get_render_buffer conv alloc_ok frames s = Some (S_OK, None, s1)"
    and "getbuf_last s = 0 \<Longrightarrow> frames \<noteq> 0 \<Longrightarrow> unat pad + unat frames < 4294967296 \<Longrightarrow>
         unat (bufsize_frames s1) < unat pad + unat frames \<Longrightarrow>
           get_render_buffer conv alloc_ok frames s = Some (AUDCLNT_E_BUFFER_TOO_LARGE, None, s1)"
  using get_current_padding_nolock_result(2) [OF p]
  by (simp_all add: get_render_buffer_def p word_less_nat_alt unat_add_32)

lemma get_render_buffer_checks:
  assumes "flow s = eRender"
  shows "getbuf_last s \<noteq> 0 \<Longrightarrow>
           get_render_buffer conv alloc_ok frames s = Some (AUDCLNT_E_OUT_OF_ORDER, None, s)"
    and "getbuf_last s = 0 \<Longrightarrow> frames = 0 \<Longrightarrow>
           get_render_buffer conv alloc_ok frames s = Some (S_OK, None, s)"
    and "getbuf_last s = 0 \<Longrightarrow> frames \<noteq> 0 \<Longrightarrow>
         unat (held_frames s) + unat frames < 4294967296 \<Longrightarrow>
         unat (bufsize_frames s) < unat (held_frames s) + unat frames \<Longrightarrow>
           get_render_buffer conv alloc_ok frames s = Some (AUDCLNT_E_BUFFER_TOO_LARGE, None, s)"
  using get_render_buffer_after_padding [OF get_current_padding_nolock_render [OF assms]]
  by blast+

text \<open>
  A request that fits the room left and does not reach the end of the ring is granted
  in place: the pointer goes into the ring at the write offset, the frames are recorded
  in \<^verbatim>\<open>getbuf_last\<close> and the region is silenced.
\<close>

lemma get_render_buffer_direct:
  assumes r: "flow s = eRender" and g: "getbuf_last s = 0" and f: "frames \<noteq> 0"
    and ok: "stream_ok s" and bok: "buffer_ok s"
    and room: "unat (held_frames s) + unat frames \<le> unat (bufsize_frames s)"
    and span: "unat (wri_offs_frames s) + unat frames \<le> unat (bufsize_frames s)"
  shows "get_render_buffer conv alloc_ok frames s =
           Some (S_OK, Some (LocalBuffer (wri_offs_frames s * block_align s)),
                 s\<lparr>getbuf_last := frames,
                   local_buffer :=
                     silence_buffer s (local_buffer s)
                       (unat (wri_offs_frames s * block_align s)) frames\<rparr>)"
proof -
  note b = stream_ok_bounds [OF ok]
  have fle: "unat frames \<le> unat (bufsize_frames s)" using span by simp
  have wle: "unat (wri_offs_frames s) \<le> unat (bufsize_frames s)" using b(3) by simp
  have s1: "unat (held_frames s + frames) = unat (held_frames s) + unat frames"
    using room b(4) by (intro unat_add_32) simp
  have s2: "unat (wri_offs_frames s + frames) = unat (wri_offs_frames s) + unat frames"
    using span b(4) by (intro unat_add_32) simp
  have t1: "\<not> bufsize_frames s < held_frames s + frames"
    using room s1 by (simp add: word_less_nat_alt)
  have t2: "\<not> bufsize_frames s < wri_offs_frames s + frames"
    using span s2 by (simp add: word_less_nat_alt)
  note pw = buffer_ok_products [OF bok wle]
  note pf = buffer_ok_products [OF bok fle]
  have "(unat (wri_offs_frames s) + unat frames) * unat (block_align s) \<le>
      unat (bufsize_frames s) * unat (block_align s)"
    using span by (rule mult_le_mono1)
  then have t3: "\<not> length (local_buffer s) <
      unat (wri_offs_frames s * block_align s) + unat (frames * block_align s)"
    using pw(1) pf(1) bok by (simp add: buffer_ok_def add_mult_distrib)
  show ?thesis
    using g f t1 t2 t3
    by (simp add: get_render_buffer_def get_current_padding_nolock_render [OF r])
qed

text \<open>
  Where the sum reaches \<open>2 ^ 32\<close> the test of line 1348 compares the wrapped sum, which
  is below the padding, and the call goes past it whatever the request.
\<close>

lemma wrapped_sum_below:
  fixes pad frames :: UINT32
  assumes "4294967296 \<le> unat pad + unat frames"
  shows "unat (pad + frames) < unat pad"
proof -
  have f: "unat frames < 4294967296" using unsigned_less [of frames, where ?'a = nat] by simp
  have p: "unat pad < 4294967296" using unsigned_less [of pad, where ?'a = nat] by simp
  have "unat (pad + frames) = (unat pad + unat frames) mod 4294967296"
    by (simp add: unat_word_ariths)
  also have "\<dots> = unat pad + unat frames - 4294967296"
    using assms f p by (simp add: mod_if)
  finally show ?thesis using f assms by linarith
qed

lemma get_render_buffer_wrapped_sum:
  assumes r: "flow s = eRender" and g: "getbuf_last s = 0"
    and held: "held_frames s \<le> bufsize_frames s"
    and wraps: "4294967296 \<le> unat (held_frames s) + unat frames"
  shows "get_render_buffer conv alloc_ok frames s \<noteq> Some (AUDCLNT_E_BUFFER_TOO_LARGE, p, s')"
proof -
  have "unat (held_frames s + frames) < unat (held_frames s)"
    using wraps by (rule wrapped_sum_below)
  then have t: "\<not> bufsize_frames s < held_frames s + frames"
    using held by (simp add: word_less_nat_alt word_le_nat_alt)
  show ?thesis
    using g t
    by (simp add: get_render_buffer_def get_current_padding_nolock_render [OF r] Let_def
        split: option.splits)
qed

text \<open>
  Claim C1 (fails where the sum of the padding and the request wraps at 32 bits). The
  render stream holds 4 frames in a ring of 8 frames, 16 bytes, with nothing
  outstanding. A request of \<open>2 ^ 32 - 1\<close> frames exceeds the room left, and the claim has
  it fail with \<^verbatim>\<open>AUDCLNT_E_BUFFER_TOO_LARGE\<close>. \<^verbatim>\<open>get_render_buffer\<close> adds the padding and the
  request in \<^verbatim>\<open>UINT32\<close> (line 1348): the sum is 3 and the test passes. So does the test
  of the write span, whose sum is 1, and \<^verbatim>\<open>silence_buffer\<close> is asked to write
  \<open>2 ^ 32 - 2\<close> bytes from byte 4 of the ring: the call does not return. A request of 5
  frames, whose sum does not wrap, fails as the claim says, and a request of 2 frames
  is granted at byte 4 of the ring.
\<close>

theorem get_render_buffer_sum_wraps:
  "flow render_stream = eRender \<and> getbuf_last render_stream = 0 \<and>
   stream_ok render_stream \<and> buffer_ok render_stream \<and>
   unat (bufsize_frames render_stream) <
     unat (held_frames render_stream) + unat (4294967295 :: UINT32) \<and>
   held_frames render_stream + 4294967295 = 3 \<and>
   wri_offs_frames render_stream + 4294967295 = 1 \<and>
   unat (wri_offs_frames render_stream * block_align render_stream) = 4 \<and>
   unat (4294967295 * block_align render_stream) = 4294967294 \<and>
   length (local_buffer render_stream) = 16 \<and>
   get_render_buffer steady True 4294967295 render_stream = None \<and>
   get_render_buffer steady True 5 render_stream =
     Some (AUDCLNT_E_BUFFER_TOO_LARGE, None, render_stream) \<and>
   get_render_buffer steady True 2 render_stream =
     Some (S_OK, Some (LocalBuffer 4),
           render_stream\<lparr>getbuf_last := 2,
             local_buffer := [1, 2, 3, 4, 0, 0, 0, 0, 9, 10, 11, 12, 13, 14, 15, 16]\<rparr>)"
proof -
  have a: "flow render_stream = eRender" "getbuf_last render_stream = 0"
    "stream_ok render_stream" "buffer_ok render_stream"
    "length (local_buffer render_stream) = 16"
    by (simp_all add: render_stream_def stream_ok_def ring_inv_def buffer_ok_def
        block_align_def pcm16_mono_def)
  have b: "unat (bufsize_frames render_stream) <
      unat (held_frames render_stream) + unat (4294967295 :: UINT32)"
    "held_frames render_stream + 4294967295 = 3"
    "wri_offs_frames render_stream + 4294967295 = 1"
    "unat (wri_offs_frames render_stream * block_align render_stream) = 4"
    "unat (4294967295 * block_align render_stream) = 4294967294"
    by (simp_all add: render_stream_def block_align_def pcm16_mono_def)
  have c: "get_render_buffer steady True 4294967295 render_stream = None"
    using b(4,5)
    by (simp add: get_render_buffer_def get_current_padding_nolock_render [OF a(1)])
      (simp add: render_stream_def)
  have d: "get_render_buffer steady True 5 render_stream =
      Some (AUDCLNT_E_BUFFER_TOO_LARGE, None, render_stream)"
    by (rule get_render_buffer_checks(3) [OF a(1,2)]) (simp_all add: render_stream_def)
  have "get_render_buffer steady True 2 render_stream =
      Some (S_OK, Some (LocalBuffer (wri_offs_frames render_stream * block_align render_stream)),
            render_stream\<lparr>getbuf_last := 2,
              local_buffer :=
                silence_buffer render_stream (local_buffer render_stream)
                  (unat (wri_offs_frames render_stream * block_align render_stream)) 2\<rparr>)"
    by (rule get_render_buffer_direct [OF a(1,2) _ a(3,4)]) (simp_all add: render_stream_def)
  then have e: "get_render_buffer steady True 2 render_stream =
      Some (S_OK, Some (LocalBuffer 4),
            render_stream\<lparr>getbuf_last := 2,
              local_buffer := [1, 2, 3, 4, 0, 0, 0, 0, 9, 10, 11, 12, 13, 14, 15, 16]\<rparr>)"
    by (simp add: render_stream_def block_align_def pcm16_mono_def silence_buffer_def
        silence_byte_def memset_def replicate_4)
  from a b c d e show ?thesis by simp
qed

section \<open>Recoverable failures\<close>

lemma get_render_buffer_failure:
  assumes p: "get_current_padding_nolock conv s = Some (pad, s1)"
    and r: "get_render_buffer conv alloc_ok frames s = Some (hr, ptr, s')"
    and f: "recoverable hr"
  shows "shared_state s' = shared_state s1" and "ptr = None"
    and "local_buffer s' = local_buffer s1"
proof -
  have "(s' = s1 \<or> s' = s1\<lparr>tmp_buffer := None, tmp_buffer_frames := 0\<rparr>) \<and> ptr = None"
    using r f
    by (auto simp: get_render_buffer_def p Let_def split: if_splits option.splits)
  then show "shared_state s' = shared_state s1" and "ptr = None"
    and "local_buffer s' = local_buffer s1"
    by (auto simp: shared_state_def)
qed

lemma get_capture_buffer_failure:
  assumes r: "get_capture_buffer conv alloc_ok want_devpos want_qpcpos stamp freq s = Some (cb, s')"
    and f: "recoverable (cb_result cb)"
  shows "s' = s"
  using r f
  by (auto simp: get_capture_buffer_def Let_def split: if_splits option.splits prod.splits)

lemma release_render_buffer_failure:
  assumes r: "release_render_buffer frames flags s = Some (hr, s')" and f: "recoverable hr"
  shows "s' = s"
  using r f
  by (auto simp: release_render_buffer_def Let_def split: if_splits option.splits)

text \<open>
  Claim C9. A call of \<^verbatim>\<open>start\<close>, \<^verbatim>\<open>reset\<close>, \<^verbatim>\<open>release_render_buffer\<close>,
  \<^verbatim>\<open>release_capture_buffer\<close> or \<^verbatim>\<open>get_capture_buffer\<close> that reports one of the recoverable
  failures returns the stream as it was, and \<^verbatim>\<open>stop\<close> reports none. A call of
  \<^verbatim>\<open>get_render_buffer\<close> on a render stream that reports one stores no pointer and leaves
  the shared state and the ring as they were: the offsets and held counts of both
  rings, \<^verbatim>\<open>written_frames\<close>, \<^verbatim>\<open>getbuf_last\<close> and \<^verbatim>\<open>playing\<close>. (After a failed allocation the
  scratch buffer is gone and its size is zero; neither is part of the shared state.)
\<close>

theorem recoverable_failures_keep_shared_state:
  "(recoverable (fst (start s)) \<longrightarrow> snd (start s) = s) \<and>
   \<not> recoverable (fst (stop s)) \<and>
   (recoverable (fst (reset s)) \<longrightarrow> snd (reset s) = s) \<and>
   (release_render_buffer frames flags s = Some (hr, s') \<and> recoverable hr \<longrightarrow> s' = s) \<and>
   (recoverable (fst (release_capture_buffer done_frames s)) \<longrightarrow>
      snd (release_capture_buffer done_frames s) = s) \<and>
   (get_capture_buffer conv alloc_ok want_devpos want_qpcpos stamp freq s = Some (cb, s') \<and>
    recoverable (cb_result cb) \<longrightarrow> s' = s) \<and>
   (flow s = eRender \<and>
    get_render_buffer conv alloc_ok frames s = Some (hr, ptr, s') \<and> recoverable hr \<longrightarrow>
      shared_state s' = shared_state s \<and> local_buffer s' = local_buffer s \<and> ptr = None)"
proof -
  have a: "recoverable (fst (start s)) \<longrightarrow> snd (start s) = s"
    by (simp add: start_def)
  have b: "\<not> recoverable (fst (stop s))"
    by (simp add: stop_def)
  have c: "recoverable (fst (reset s)) \<longrightarrow> snd (reset s) = s"
    by (simp add: reset_def)
  have d: "recoverable (fst (release_capture_buffer done_frames s)) \<longrightarrow>
      snd (release_capture_buffer done_frames s) = s"
    by (simp add: release_capture_buffer_def)
  have e: "shared_state s' = shared_state s \<and> local_buffer s' = local_buffer s \<and> ptr = None"
    if "flow s = eRender" "get_render_buffer conv alloc_ok frames s = Some (hr, ptr, s')"
      "recoverable hr"
    using get_render_buffer_failure [OF get_current_padding_nolock_render [OF that(1)] that(2,3)]
    by simp
  from a b c d e release_render_buffer_failure [of frames flags s hr s']
    get_capture_buffer_failure [of conv alloc_ok want_devpos want_qpcpos stamp freq s cb s']
  show ?thesis by blast
qed

theorem recoverable_failures_keep_shared_state_witness:
  "fst (start render_stream) = AUDCLNT_E_NOT_STOPPED \<and> snd (start render_stream) = render_stream \<and>
   fst (reset render_stream) = AUDCLNT_E_NOT_STOPPED \<and> snd (reset render_stream) = render_stream \<and>
   fst (reset (render_stream\<lparr>playing := False, getbuf_last := 4\<rparr>)) =
     AUDCLNT_E_BUFFER_OPERATION_PENDING \<and>
   snd (reset (render_stream\<lparr>playing := False, getbuf_last := 4\<rparr>)) =
     render_stream\<lparr>playing := False, getbuf_last := 4\<rparr> \<and>
   release_render_buffer 5 0 (render_stream\<lparr>getbuf_last := 4\<rparr>) =
     Some (AUDCLNT_E_INVALID_SIZE, render_stream\<lparr>getbuf_last := 4\<rparr>) \<and>
   release_render_buffer 3 0 render_stream = Some (AUDCLNT_E_OUT_OF_ORDER, render_stream) \<and>
   fst (release_capture_buffer 3 capture_stream) = AUDCLNT_E_OUT_OF_ORDER \<and>
   snd (release_capture_buffer 3 capture_stream) = capture_stream \<and>
   fst (release_capture_buffer 3 (capture_stream\<lparr>getbuf_last := 4\<rparr>)) = AUDCLNT_E_INVALID_SIZE \<and>
   snd (release_capture_buffer 3 (capture_stream\<lparr>getbuf_last := 4\<rparr>)) =
     capture_stream\<lparr>getbuf_last := 4\<rparr> \<and>
   (\<exists>cb. get_capture_buffer steady True True True 0 1 (capture_stream\<lparr>getbuf_last := 4\<rparr>) =
      Some (cb, capture_stream\<lparr>getbuf_last := 4\<rparr>) \<and> cb_result cb = AUDCLNT_E_OUT_OF_ORDER) \<and>
   (\<exists>s'. get_render_buffer steady True 3 (render_stream\<lparr>getbuf_last := 4\<rparr>) =
      Some (AUDCLNT_E_OUT_OF_ORDER, None, s') \<and>
      shared_state s' = shared_state (render_stream\<lparr>getbuf_last := 4\<rparr>)) \<and>
   (\<exists>s'. get_render_buffer steady True 5 render_stream =
      Some (AUDCLNT_E_BUFFER_TOO_LARGE, None, s') \<and>
      shared_state s' = shared_state render_stream) \<and>
   (\<exists>s'. get_render_buffer steady False 4 (indirect_stream\<lparr>getbuf_last := 0\<rparr>) =
      Some (E_OUTOFMEMORY, None, s') \<and>
      shared_state s' = shared_state (indirect_stream\<lparr>getbuf_last := 0\<rparr>) \<and>
      local_buffer s' = local_buffer indirect_stream)"
proof -
  let ?o = "render_stream\<lparr>getbuf_last := 4\<rparr>"
  let ?q = "render_stream\<lparr>playing := False, getbuf_last := 4\<rparr>"
  let ?c = "capture_stream\<lparr>getbuf_last := 4\<rparr>"
  let ?m = "indirect_stream\<lparr>getbuf_last := 0\<rparr>"
  note t = recoverable_failures_keep_shared_state
  have a: "fst (start render_stream) = AUDCLNT_E_NOT_STOPPED"
    "fst (reset render_stream) = AUDCLNT_E_NOT_STOPPED"
    "fst (reset ?q) = AUDCLNT_E_BUFFER_OPERATION_PENDING"
    "fst (release_capture_buffer 3 capture_stream) = AUDCLNT_E_OUT_OF_ORDER"
    "fst (release_capture_buffer 3 ?c) = AUDCLNT_E_INVALID_SIZE"
    by (simp_all add: start_def reset_def release_capture_buffer_def render_stream_def
        capture_stream_def)
  have b1: "snd (start render_stream) = render_stream"
    using t [where s = render_stream, THEN conjunct1] a(1) by simp
  have b2: "snd (reset render_stream) = render_stream"
    using t [where s = render_stream, THEN conjunct2, THEN conjunct2, THEN conjunct1] a(2) by simp
  have b3: "snd (reset ?q) = ?q"
    using t [where s = ?q, THEN conjunct2, THEN conjunct2, THEN conjunct1] a(3) by simp
  have b4: "snd (release_capture_buffer 3 capture_stream) = capture_stream"
    using t [where s = capture_stream and done_frames = 3, THEN conjunct2, THEN conjunct2, THEN conjunct2, THEN conjunct2, THEN conjunct1] a(4) by simp
  have b5: "snd (release_capture_buffer 3 ?c) = ?c"
    using t [where s = ?c and done_frames = 3, THEN conjunct2, THEN conjunct2, THEN conjunct2, THEN conjunct2, THEN conjunct1] a(5) by simp
  obtain s1 where s1: "release_render_buffer 5 0 ?o = Some (AUDCLNT_E_INVALID_SIZE, s1)"
    by (simp add: release_render_buffer_def render_stream_def)
  have "s1 = ?o"
    using t [where s = ?o and frames = 5 and flags = 0 and hr = AUDCLNT_E_INVALID_SIZE
        and s' = s1, THEN conjunct2, THEN conjunct2, THEN conjunct2, THEN conjunct1] s1
    by simp
  with s1 have c1: "release_render_buffer 5 0 ?o = Some (AUDCLNT_E_INVALID_SIZE, ?o)"
    by simp
  obtain s2 where s2: "release_render_buffer 3 0 render_stream = Some (AUDCLNT_E_OUT_OF_ORDER, s2)"
    by (simp add: release_render_buffer_def render_stream_def)
  have "s2 = render_stream"
    using t [where s = render_stream and frames = 3 and flags = 0
        and hr = AUDCLNT_E_OUT_OF_ORDER and s' = s2, THEN conjunct2, THEN conjunct2, THEN conjunct2, THEN conjunct1] s2
    by simp
  with s2 have c2: "release_render_buffer 3 0 render_stream =
      Some (AUDCLNT_E_OUT_OF_ORDER, render_stream)"
    by simp
  obtain cb s3 where s3: "get_capture_buffer steady True True True 0 1 ?c = Some (cb, s3)"
    and cb: "cb_result cb = AUDCLNT_E_OUT_OF_ORDER"
    by (simp add: get_capture_buffer_def capture_stream_def)
  have "s3 = ?c"
    using t [where s = ?c and conv = steady and alloc_ok = True and want_devpos = True
        and want_qpcpos = True and stamp = 0 and freq = 1 and cb = cb and s' = s3,
        THEN conjunct2, THEN conjunct2, THEN conjunct2, THEN conjunct2, THEN conjunct2, THEN conjunct1] s3 cb
    by simp
  with s3 cb have d: "\<exists>cb. get_capture_buffer steady True True True 0 1 ?c = Some (cb, ?c) \<and>
      cb_result cb = AUDCLNT_E_OUT_OF_ORDER"
    by blast
  have r: "flow ?o = eRender" "flow render_stream = eRender" "flow ?m = eRender"
    by (simp_all add: indirect_stream_def render_stream_def)
  obtain s4 where s4: "get_render_buffer steady True 3 ?o = Some (AUDCLNT_E_OUT_OF_ORDER, None, s4)"
    by (simp add: get_render_buffer_def get_current_padding_nolock_def render_stream_def)
  have "shared_state s4 = shared_state ?o"
    using t [where s = ?o and conv = steady and alloc_ok = True and frames = 3
        and hr = AUDCLNT_E_OUT_OF_ORDER and ptr = None and s' = s4, THEN conjunct2, THEN conjunct2, THEN conjunct2, THEN conjunct2, THEN conjunct2, THEN conjunct2] s4 r(1)
    by simp
  with s4 have e1: "\<exists>s'. get_render_buffer steady True 3 ?o =
      Some (AUDCLNT_E_OUT_OF_ORDER, None, s') \<and> shared_state s' = shared_state ?o"
    by blast
  obtain s5 where s5: "get_render_buffer steady True 5 render_stream =
      Some (AUDCLNT_E_BUFFER_TOO_LARGE, None, s5)"
    by (simp add: get_render_buffer_def get_current_padding_nolock_def render_stream_def)
  have "shared_state s5 = shared_state render_stream"
    using t [where s = render_stream and conv = steady and alloc_ok = True and frames = 5
        and hr = AUDCLNT_E_BUFFER_TOO_LARGE and ptr = None and s' = s5, THEN conjunct2, THEN conjunct2, THEN conjunct2, THEN conjunct2, THEN conjunct2, THEN conjunct2] s5 r(2)
    by simp
  with s5 have e2: "\<exists>s'. get_render_buffer steady True 5 render_stream =
      Some (AUDCLNT_E_BUFFER_TOO_LARGE, None, s') \<and> shared_state s' = shared_state render_stream"
    by blast
  obtain s6 where s6: "get_render_buffer steady False 4 ?m = Some (E_OUTOFMEMORY, None, s6)"
    by (simp add: get_render_buffer_def get_current_padding_nolock_def indirect_stream_def
        render_stream_def)
  have "shared_state s6 = shared_state ?m \<and> local_buffer s6 = local_buffer ?m"
    using t [where s = ?m and conv = steady and alloc_ok = False and frames = 4
        and hr = E_OUTOFMEMORY and ptr = None and s' = s6, THEN conjunct2, THEN conjunct2, THEN conjunct2, THEN conjunct2, THEN conjunct2, THEN conjunct2] s6 r(3)
    by simp
  with s6 have e3: "\<exists>s'. get_render_buffer steady False 4 ?m = Some (E_OUTOFMEMORY, None, s') \<and>
      shared_state s' = shared_state ?m \<and> local_buffer s' = local_buffer indirect_stream"
    by auto
  from a b1 b2 b3 b4 b5 c1 c2 d e1 e2 e3 show ?thesis by (intro conjI)
qed

section \<open>Acquiring a capture buffer\<close>














end
